theory Spec2Isabelle
  imports Main "HOL-Library.Sublist"
begin

section \<open>The sidebar synchroniser \<^verbatim>\<open>update_pages.py\<close>\<close>

text \<open>
  The script rewrites the navigation sidebar of eight HTML mock-ups and makes sure each of
  them links the icon font. This theory embeds it: the string operations it borrows from
  Python (\<^verbatim>\<open>in\<close>, \<^verbatim>\<open>str.replace\<close>, \<^verbatim>\<open>os.path.join\<close>, the one regular
  expression it compiles), the fragment builder \<^verbatim>\<open>get_sidebar\<close>, and the loop over the
  configured files as a function on a file system with a trace of what was read, printed
  and written.

  A text is a \<^typ>\<open>string\<close>: the UTF-8 bytes of the Python \<^verbatim>\<open>str\<close>, as the script
  opens its files with \<^verbatim>\<open>encoding='utf-8'\<close>. Every literal the script searches for is
  ASCII, an ASCII byte never occurs inside the encoding of another code point, and \<^verbatim>\<open>.\<close>
  under \<^verbatim>\<open>re.DOTALL\<close> matches every code point; so searching, matching and replacing on
  the bytes and on the code points give the same text. Paths are those of a POSIX system.
\<close>

subsection \<open>Python's string operations\<close>

text \<open>\<^verbatim>\<open>sub in s\<close>: does \<open>sub\<close> occur in \<open>s\<close> as a contiguous substring.\<close>

fun str_in :: "'a list \<Rightarrow> 'a list \<Rightarrow> bool" where
  "str_in sub [] = (sub = [])"
| "str_in sub (c # cs) = (prefix sub (c # cs) \<or> str_in sub cs)"

text \<open>
  \<^verbatim>\<open>s.replace(old, new)\<close>: every occurrence of \<open>old\<close>, found from the left and not
  overlapping an earlier one, is replaced by \<open>new\<close>. With an empty \<open>old\<close> Python puts
  \<open>new\<close> before every character and at the end.
\<close>

function str_replace :: "'a list \<Rightarrow> 'a list \<Rightarrow> 'a list \<Rightarrow> 'a list" where
  "str_replace old new [] = (if old = [] then new else [])"
| "str_replace old new (c # cs) =
     (if old = [] then new @ c # str_replace old new cs
      else if prefix old (c # cs) then new @ str_replace old new (drop (length old) (c # cs))
      else c # str_replace old new cs)"
  by pat_completeness auto
termination
  by (relation "measure (\<lambda>(old, new, s). length s)") auto

text \<open>
  \<^verbatim>\<open>os.path.join(a, b)\<close> of \<^verbatim>\<open>posixpath\<close>: an absolute \<open>b\<close> replaces \<open>a\<close>; otherwise
  the two are joined by one separator, which is left out when \<open>a\<close> is empty or ends in one.
\<close>

definition path_join :: "string \<Rightarrow> string \<Rightarrow> string" where
  "path_join a b =
     (if prefix ''/'' b then b
      else if a = [] \<or> suffix ''/'' a then a @ b
      else a @ ''/'' @ b)"

subsection \<open>The regular expression\<close>

text \<open>
  The script compiles \<^verbatim>\<open><aside.*?>.*?</aside>\<close> with \<^verbatim>\<open>re.DOTALL\<close>. The pattern is a
  sequence of literal characters and of \<^verbatim>\<open>.*?\<close>, the lazy repetition of the dot, which
  under \<^verbatim>\<open>DOTALL\<close> takes any character, the line break too.

  \<open>re_match p s\<close> matches \<open>p\<close> at the start of \<open>s\<close> as the backtracking matcher of
  \<^verbatim>\<open>re\<close> does and returns the text left after the match it finds first: a lazy
  repetition first tries to stop where it is and takes one more character only when the
  rest of the pattern fails from there.
\<close>

datatype re_item = Lit char | AnyLazy

fun re_match :: "re_item list \<Rightarrow> string \<Rightarrow> string option" where
  "re_match [] s = Some s"
| "re_match (Lit c # p) [] = None"
| "re_match (Lit c # p) (x # xs) = (if x = c then re_match p xs else None)"
| "re_match (AnyLazy # p) [] = re_match p []"
| "re_match (AnyLazy # p) (x # xs) =
     (case re_match p (x # xs) of
        Some rest \<Rightarrow> Some rest
      | None \<Rightarrow> re_match (AnyLazy # p) xs)"

text \<open>
  \<^verbatim>\<open>pattern.search(s)\<close> tries every start position from the left and stops at the first
  one where the pattern matches: \<open>re_search p s\<close> is then the text before the match and
  the text after it, and \<open>None\<close> when no position matches.
\<close>

fun re_search :: "re_item list \<Rightarrow> string \<Rightarrow> (string \<times> string) option" where
  "re_search p [] = (case re_match p [] of Some rest \<Rightarrow> Some ([], rest) | None \<Rightarrow> None)"
| "re_search p (x # xs) =
     (case re_match p (x # xs) of
        Some rest \<Rightarrow> Some ([], rest)
      | None \<Rightarrow>
         (case re_search p xs of
            Some (before, rest) \<Rightarrow> Some (x # before, rest)
          | None \<Rightarrow> None))"

text \<open>
  \<^verbatim>\<open>pattern.sub(repl, s, count=1)\<close>: the first match is replaced by \<open>repl\<close>, and a text
  with no match is returned as it is. \<^verbatim>\<open>re\<close> expands backslash escapes in \<open>repl\<close>; the
  only replacement the script passes is a fragment of \<open>get_sidebar\<close>, which holds no
  backslash (lemma \<open>get_sidebar_no_backslash\<close> below), so it is spliced in as it is.
\<close>

definition re_sub_first :: "re_item list \<Rightarrow> string \<Rightarrow> string \<Rightarrow> string" where
  "re_sub_first p repl s =
     (case re_search p s of
        None \<Rightarrow> s
      | Some (before, rest) \<Rightarrow> before @ repl @ rest)"

definition aside_pattern :: "re_item list" where
  "aside_pattern =
     map Lit ''<aside'' @ [AnyLazy] @ map Lit ''>'' @ [AnyLazy] @ map Lit ''</aside>''"

subsection \<open>Configuration\<close>

definition design_dir :: string where
  "design_dir = ''.designs''"

text \<open>The dictionary \<^verbatim>\<open>files\<close>, in the order Python iterates it (the order of insertion).\<close>

definition files :: "(string \<times> string) list" where
  "files =
     [(''dashboard.html'', ''Dashboard''),
      (''participants.html'', ''Participants''),
      (''reports.html'', ''Reports & Docs''),
      (''ai.html'', ''AI Assistant''),
      (''toolkit.html'', ''Toolkit''),
      (''ndisplans.html'', ''NDIS Plans''),
      (''general.html'', ''General''),
      (''profile.html'', ''Profile'')]"

subsection \<open>The fragment builder\<close>

text \<open>
  \<^verbatim>\<open>link_class\<close> and \<^verbatim>\<open>icon_class\<close> are closures over \<^verbatim>\<open>active_page\<close>; here it is their
  first argument.
\<close>

definition link_class :: "string \<Rightarrow> string \<Rightarrow> string" where
  "link_class active_page page_name =
     (let base = ''flex items-center gap-3 px-2 py-2.5 rounded-DEFAULT transition-colors group'' in
      if page_name = active_page
      then base @ '' bg-primary/10 text-primary''
      else base @ '' text-text-sub-light dark:text-text-sub-dark hover:bg-gray-50 dark:hover:bg-slate-700/50 hover:text-gray-900 dark:hover:text-white'')"

definition icon_class :: "string \<Rightarrow> string \<Rightarrow> string" where
  "icon_class active_page page_name =
     (let base = ''material-icons-round text-[20px] transition-colors'' in
      if page_name = active_page
      then base
      else base @ '' group-hover:text-primary'')"

text \<open>
  The f-string of \<^verbatim>\<open>get_sidebar\<close>: one list element for each of its first 101
  lines, each with its line break, and the last line, which has none. The character after
  \<^verbatim>\<open>py-0.5">\<close> in the search box is U+2318, three bytes in UTF-8.
\<close>

definition get_sidebar :: "string \<Rightarrow> string" where
  \<open>get_sidebar active_page = concat [
     ''<aside class="w-64 bg-surface-light dark:bg-surface-dark border-r border-border-light dark:border-border-dark flex flex-col h-full flex-shrink-0 z-20">\<newline>'',
     ''    <div class="h-16 flex items-center px-6 border-b border-border-light dark:border-border-dark lg:border-none">\<newline>'',
     ''        <div class="flex items-center gap-2">\<newline>'',
     ''            <div class="w-8 h-8 rounded-lg bg-primary flex items-center justify-center text-white">\<newline>'',
     ''                <span class="material-icons-round text-xl">all_inclusive</span>\<newline>'',
     ''            </div>\<newline>'',
     ''            <span class="text-lg font-bold text-gray-900 dark:text-white tracking-tight">Quantum</span>\<newline>'',
     ''        </div>\<newline>'',
     ''    </div>\<newline>'',
     ''    <div class="px-5 mt-4 mb-2">\<newline>'',
     ''        <div class="relative">\<newline>'',
     ''            <span class="absolute inset-y-0 left-0 pl-3 flex items-center pointer-events-none">\<newline>'',
     ''                <span class="material-icons-round text-gray-400 text-sm">search</span>\<newline>'',
     ''            </span>\<newline>'',
     ''            <input class="w-full bg-gray-50 dark:bg-slate-700/50 border-none rounded-lg py-2 pl-9 pr-3 text-sm text-gray-700 dark:text-gray-200 focus:ring-1 focus:ring-primary placeholder-gray-400 dark:placeholder-slate-500" placeholder="Search data..." type="text"/>\<newline>'',
     ''            <div class="absolute inset-y-0 right-0 pr-2 flex items-center pointer-events-none">\<newline>'',
     ''                <span class="text-gray-400 text-xs border border-gray-200 dark:border-gray-600 rounded px-1.5 py-0.5">'' @ [CHR 0xE2, CHR 0x8C, CHR 0x98] @ ''K</span>\<newline>'',
     ''            </div>\<newline>'',
     ''        </div>\<newline>'',
     ''    </div>\<newline>'',
     ''    <nav class="flex-1 overflow-y-auto px-4 py-4 space-y-6">\<newline>'',
     ''        <div>\<newline>'',
     ''            <h3 class="px-2 text-xs font-semibold text-text-sub-light dark:text-text-sub-dark uppercase tracking-wider mb-2">Clinical Workflow</h3>\<newline>'',
     ''            <ul class="space-y-1">\<newline>'',
     ''                <li>\<newline>'',
     ''                    <a class="'' @ link_class active_page ''Dashboard'' @ ''" href="dashboard.html">\<newline>'',
     ''                        <span class="'' @ icon_class active_page ''Dashboard'' @ ''">dashboard</span>\<newline>'',
     ''                        <span class="font-medium text-sm">Dashboard</span>\<newline>'',
     ''                    </a>\<newline>'',
     ''                </li>\<newline>'',
     ''                <li>\<newline>'',
     ''                    <a class="'' @ link_class active_page ''Participants'' @ ''" href="participants.html">\<newline>'',
     ''                        <span class="'' @ icon_class active_page ''Participants'' @ ''">people</span>\<newline>'',
     ''                        <span class="font-medium text-sm">Participants</span>\<newline>'',
     ''                    </a>\<newline>'',
     ''                </li>\<newline>'',
     ''                <li>\<newline>'',
     ''                    <a class="'' @ link_class active_page ''Reports & Docs'' @ ''" href="reports.html">\<newline>'',
     ''                        <span class="'' @ icon_class active_page ''Reports & Docs'' @ ''">assignment</span>\<newline>'',
     ''                        <span class="font-medium text-sm">Reports & Docs</span>\<newline>'',
     ''                    </a>\<newline>'',
     ''                </li>\<newline>'',
     ''                <li>\<newline>'',
     ''                    <a class="'' @ link_class active_page ''AI Assistant'' @ ''" href="ai.html">\<newline>'',
     ''                        <span class="'' @ icon_class active_page ''AI Assistant'' @ ''">psychology</span>\<newline>'',
     ''                        <span class="font-medium text-sm">AI Assistant</span>\<newline>'',
     ''                        <span class="ml-auto bg-indigo-100 dark:bg-indigo-900/40 text-primary text-[10px] font-bold px-1.5 py-0.5 rounded">NEW</span>\<newline>'',
     ''                    </a>\<newline>'',
     ''                </li>\<newline>'',
     ''                <li>\<newline>'',
     ''                    <a class="'' @ link_class active_page ''Toolkit'' @ ''" href="toolkit.html">\<newline>'',
     ''                        <span class="'' @ icon_class active_page ''Toolkit'' @ ''">construction</span>\<newline>'',
     ''                        <span class="font-medium text-sm">Toolkit</span>\<newline>'',
     ''                    </a>\<newline>'',
     ''                </li>\<newline>'',
     ''            </ul>\<newline>'',
     ''        </div>\<newline>'',
     ''        <div>\<newline>'',
     ''            <h3 class="px-2 text-xs font-semibold text-text-sub-light dark:text-text-sub-dark uppercase tracking-wider mb-2">Compliance</h3>\<newline>'',
     ''            <ul class="space-y-1">\<newline>'',
     ''                <li>\<newline>'',
     ''                    <a class="'' @ link_class active_page ''Audits'' @ ''" href="#">\<newline>'',
     ''                        <span class="'' @ icon_class active_page ''Audits'' @ ''">verified_user</span>\<newline>'',
     ''                        <span class="font-medium text-sm">Audits</span>\<newline>'',
     ''                    </a>\<newline>'',
     ''                </li>\<newline>'',
     ''                <li>\<newline>'',
     ''                    <a class="'' @ link_class active_page ''NDIS Plans'' @ ''" href="ndisplans.html">\<newline>'',
     ''                        <span class="'' @ icon_class active_page ''NDIS Plans'' @ ''">history_edu</span>\<newline>'',
     ''                        <span class="font-medium text-sm">NDIS Plans</span>\<newline>'',
     ''                    </a>\<newline>'',
     ''                </li>\<newline>'',
     ''            </ul>\<newline>'',
     ''        </div>\<newline>'',
     ''        <div>\<newline>'',
     ''            <h3 class="px-2 text-xs font-semibold text-text-sub-light dark:text-text-sub-dark uppercase tracking-wider mb-2">Settings</h3>\<newline>'',
     ''            <ul class="space-y-1">\<newline>'',
     ''                <li>\<newline>'',
     ''                    <a class="'' @ link_class active_page ''General'' @ ''" href="general.html">\<newline>'',
     ''                        <span class="'' @ icon_class active_page ''General'' @ ''">settings</span>\<newline>'',
     ''                        <span class="font-medium text-sm">General</span>\<newline>'',
     ''                    </a>\<newline>'',
     ''                </li>\<newline>'',
     ''                <li>\<newline>'',
     ''                    <a class="'' @ link_class active_page ''Help Center'' @ ''" href="#">\<newline>'',
     ''                        <span class="'' @ icon_class active_page ''Help Center'' @ ''">help_outline</span>\<newline>'',
     ''                        <span class="font-medium text-sm">Help Center</span>\<newline>'',
     ''                    </a>\<newline>'',
     ''                </li>\<newline>'',
     ''            </ul>\<newline>'',
     ''        </div>\<newline>'',
     ''    </nav>\<newline>'',
     ''    <div class="p-4 border-t border-border-light dark:border-border-dark">\<newline>'',
     ''        <a href="profile.html" class="flex items-center gap-3 w-full hover:bg-gray-50 dark:hover:bg-slate-700/50 p-2 rounded-lg transition-colors">\<newline>'',
     ''            <img alt="User avatar" class="w-8 h-8 rounded-full border border-gray-200 dark:border-gray-600" src="https://lh3.googleusercontent.com/aida-public/AB6AXuC3PRJomuYWo10PIj-wZ4oATztLJHU09M0yzJNrEj9PExcDf5irhFSknCmiKVhIpHuE4326mJFaMwoiucPKgNbVWJYxfzdkmyA-t4lIl6dIWQMk6zReuWABMGjJb68EgIVNIwi_wIUQVkBLhK3I9Gt-mQSt3N1NR1couViFXGZXp6c9r1JSV1qz03QqNMe4LrKh9goVNRi7QBvro3HK6SDVnBkcQwmT3-bgiNqy6TS7PRK8rgX7QlIiZMYr0io3FhCbpUqj8sqRCIs"/>\<newline>'',
     ''            <div class="text-left">\<newline>'',
     ''                <p class="text-sm font-medium text-gray-900 dark:text-white">Sarah Chen</p>\<newline>'',
     ''                <p class="text-xs text-text-sub-light dark:text-text-sub-dark">Senior OT</p>\<newline>'',
     ''            </div>\<newline>'',
     ''        </a>\<newline>'',
     ''    </div>\<newline>''] @
     ''</aside>''\<close>

subsection \<open>The file system and the run\<close>

text \<open>
  A path of the file system holds a document (the text stored in the file), or something
  that exists but that \<^verbatim>\<open>open\<close> or \<^verbatim>\<open>read\<close> rejects (a directory, a file without
  permission, bytes that are not UTF-8): the exception is not handled and ends the run. A
  document that was read is taken to be writable. The trace records, in order, what the
  run reads, prints and writes.
\<close>

datatype node = Document string | Unreadable

text \<open>
  \<^verbatim>\<open>f.read()\<close> on a file opened in text mode with the default \<^verbatim>\<open>newline=None\<close>: the
  stored text with every \<^verbatim>\<open>\r\n\<close>, and then every \<^verbatim>\<open>\r\<close> that is left, turned into
  \<^verbatim>\<open>\n\<close>. \<^verbatim>\<open>f.write\<close> stores a text as it is, the line separator being \<^verbatim>\<open>\n\<close>.
\<close>

definition read_text :: "string \<Rightarrow> string" where
  "read_text stored =
     str_replace [CHR 0x0D] ''\<newline>'' (str_replace [CHR 0x0D, CHR 0x0A] ''\<newline>'' stored)"

datatype event = Print string | Read string | Wrote string string

record world =
  fs :: "string \<rightharpoonup> node"
  trace :: "event list"

datatype outcome = Finished world | Aborted string world

definition emit :: "event list \<Rightarrow> world \<Rightarrow> world" where
  "emit es w = w\<lparr>trace := trace w @ es\<rparr>"

text \<open>Step 1 of the loop body: the new text and the line printed.\<close>

definition update_sidebar :: "string \<Rightarrow> string \<Rightarrow> string \<Rightarrow> string \<times> string" where
  "update_sidebar filename page_name content =
     (let new_sidebar = get_sidebar page_name;
          pattern = aside_pattern
      in if re_search pattern content \<noteq> None
         then (re_sub_first pattern new_sidebar content, ''Updated sidebar in '' @ filename)
         else (content, ''Warning: No aside tag found in '' @ filename))"

definition icon_link :: string where
  \<open>icon_link = ''<link href="https://fonts.googleapis.com/icon?family=Material+Icons+Round" rel="stylesheet"/>''\<close>

text \<open>
  Step 2 of the loop body. \<open>add_icon_link\<close> is the replacement of its inner line,
  \<^verbatim>\<open>content.replace('</head>', f'{icon_link}\n</head>')\<close>; \<open>ensure_icon_link\<close> is the
  step: the new text and the lines printed (one or none).
\<close>

definition add_icon_link :: "string \<Rightarrow> string" where
  "add_icon_link content = str_replace ''</head>'' (icon_link @ ''\<newline></head>'') content"

definition ensure_icon_link :: "string \<Rightarrow> string \<Rightarrow> string \<times> string list" where
  "ensure_icon_link filename content =
     (if \<not> str_in ''family=Material+Icons+Round'' content
      then (add_icon_link content, [''Added Material Icons link to '' @ filename])
      else (content, []))"

text \<open>
  The text the loop body writes back for a document it has read. Step 3 of the body is a
  test whose only branch is \<^verbatim>\<open>pass\<close>, so it changes nothing.
\<close>

definition patch_text :: "string \<Rightarrow> string \<Rightarrow> string \<Rightarrow> string" where
  "patch_text filename page_name content =
     fst (ensure_icon_link filename (fst (update_sidebar filename page_name content)))"

text \<open>One iteration of the loop \<^verbatim>\<open>for filename, page_name in files.items()\<close>.\<close>

definition process_file :: "string \<times> string \<Rightarrow> world \<Rightarrow> outcome" where
  "process_file entry w =
     (let filename = fst entry; page_name = snd entry;
          filepath = path_join design_dir filename
      in case fs w filepath of
           None \<Rightarrow> Finished (emit [Print (''Skipping '' @ filename @ '', does not exist'')] w)
         | Some Unreadable \<Rightarrow> Aborted filepath (emit [Read filepath] w)
         | Some (Document stored) \<Rightarrow>
             (let content = read_text stored;
                  (content1, line1) = update_sidebar filename page_name content;
                  (content2, lines2) = ensure_icon_link filename content1
              in Finished
                   ((emit ([Read filepath] @ map Print (line1 # lines2) @ [Wrote filepath content2]) w)
                      \<lparr>fs := (fs w)(filepath \<mapsto> Document content2)\<rparr>)))"

fun run_files :: "(string \<times> string) list \<Rightarrow> world \<Rightarrow> outcome" where
  "run_files [] w = Finished w"
| "run_files (entry # entries) w =
     (case process_file entry w of
        Finished w' \<Rightarrow> run_files entries w'
      | Aborted filepath w' \<Rightarrow> Aborted filepath w')"

text \<open>The world a run ends in, finished or aborted.\<close>

fun final_world :: "outcome \<Rightarrow> world" where
  "final_world (Finished w) = w"
| "final_world (Aborted filepath w) = w"

text \<open>An event touches a path when it reads the path or writes to it.\<close>

fun touches :: "event \<Rightarrow> string \<Rightarrow> bool" where
  "touches (Print line) filepath = False"
| "touches (Read p) filepath = (p = filepath)"
| "touches (Wrote p text) filepath = (p = filepath)"

text \<open>The whole script: the loop, then the closing line.\<close>

definition run :: "world \<Rightarrow> outcome" where
  "run w =
     (case run_files files w of
        Finished w' \<Rightarrow> Finished (emit [Print ''All files processed.''] w')
      | Aborted filepath w' \<Rightarrow> Aborted filepath w')"

subsection \<open>The links of the fragment\<close>

text \<open>
  The nine links inside the \<^verbatim>\<open>nav\<close> element of the template (its lines 57 to 121), each
  with the label it passes to \<^verbatim>\<open>link_class\<close> and \<^verbatim>\<open>icon_class\<close>, its \<^verbatim>\<open>href\<close> and
  the name of its icon. The tenth anchor of the template, the profile footer, calls neither
  function: its class is a literal of the template.
\<close>

definition nav_links :: "(string \<times> string \<times> string) list" where
  "nav_links =
     [(''Dashboard'', ''dashboard.html'', ''dashboard''),
      (''Participants'', ''participants.html'', ''people''),
      (''Reports & Docs'', ''reports.html'', ''assignment''),
      (''AI Assistant'', ''ai.html'', ''psychology''),
      (''Toolkit'', ''toolkit.html'', ''construction''),
      (''Audits'', ''#'', ''verified_user''),
      (''NDIS Plans'', ''ndisplans.html'', ''history_edu''),
      (''General'', ''general.html'', ''settings''),
      (''Help Center'', ''#'', ''help_outline'')]"

text \<open>The first three lines of a link's list item, as the template writes them.\<close>

definition nav_link_lines :: "string \<Rightarrow> string \<times> string \<times> string \<Rightarrow> string list" where
  \<open>nav_link_lines active_page link =
     (case link of (label, href, icon) \<Rightarrow>
       [''                    <a class="'' @ link_class active_page label @ ''" href="'' @ href @ ''">\<newline>'',
        ''                        <span class="'' @ icon_class active_page label @ ''">'' @ icon @ ''</span>\<newline>'',
        ''                        <span class="font-medium text-sm">'' @ label @ ''</span>\<newline>''])\<close>

text \<open>The two lines of the profile footer that carry the name and the role.\<close>

definition profile_lines :: "string list" where
  \<open>profile_lines =
     [''                <p class="text-sm font-medium text-gray-900 dark:text-white">Sarah Chen</p>\<newline>'',
      ''                <p class="text-xs text-text-sub-light dark:text-text-sub-dark">Senior OT</p>\<newline>'']\<close>

text \<open>The two pairs of styles a link can get, and the pair it gets.\<close>

definition active_pair :: "string \<times> string" where
  "active_pair =
     (''flex items-center gap-3 px-2 py-2.5 rounded-DEFAULT transition-colors group bg-primary/10 text-primary'',
      ''material-icons-round text-[20px] transition-colors'')"

definition hover_pair :: "string \<times> string" where
  "hover_pair =
     (''flex items-center gap-3 px-2 py-2.5 rounded-DEFAULT transition-colors group text-text-sub-light dark:text-text-sub-dark hover:bg-gray-50 dark:hover:bg-slate-700/50 hover:text-gray-900 dark:hover:text-white'',
      ''material-icons-round text-[20px] transition-colors group-hover:text-primary'')"

definition style_pair :: "string \<Rightarrow> string \<Rightarrow> string \<times> string" where
  "style_pair active_page label = (link_class active_page label, icon_class active_page label)"

definition active_links :: "string \<Rightarrow> (string \<times> string \<times> string) list" where
  "active_links active_page =
     filter (\<lambda>link. style_pair active_page (fst link) = active_pair) nav_links"

subsection \<open>Texts with a container\<close>

text \<open>
  The texts in which the pattern has a match: some \<open><aside\<close>, behind it some \<open>>\<close>, behind
  that some \<open></aside>\<close>.
\<close>

definition has_container :: "string \<Rightarrow> bool" where
  "has_container s \<longleftrightarrow>
     (\<exists>before attrs inner rest.
        s = before @ ''<aside'' @ attrs @ ''>'' @ inner @ ''</aside>'' @ rest)"

subsection \<open>Lines free of a word\<close>

text \<open>
  A line that cannot take part in an occurrence of \<open>w\<close> that crosses its end: it does not
  hold \<open>w\<close>, and its last character is none of \<open>w\<close>. The fragment is checked line by line
  against the words the patcher looks for.
\<close>

definition line_free :: "'a list \<Rightarrow> 'a list \<Rightarrow> bool" where
  "line_free w l \<longleftrightarrow> l \<noteq> [] \<and> last l \<notin> set w \<and> \<not> sublist w l"

definition plain_text :: "string \<Rightarrow> bool" where
  "plain_text s \<longleftrightarrow>
     \<not> sublist ''</as'' s \<and> \<not> sublist ''</he'' s \<and>
     CHR ''+'' \<notin> set s \<and> CHR 0x5C \<notin> set s \<and> CHR 0x0D \<notin> set s"

definition plain_line :: "string \<Rightarrow> bool" where
  "plain_line l \<longleftrightarrow> l \<noteq> [] \<and> last l = CHR ''\<newline>'' \<and> plain_text l"

section \<open>Substrings\<close>

lemma str_in_sublist: "str_in sub s \<longleftrightarrow> sublist sub s"
  by (induction s) (auto simp: sublist_Cons_right)

lemma sublist_start_delim:
  assumes "c \<notin> set (tl w)"
  shows "sublist w (xs @ c # ys) \<longleftrightarrow> sublist w xs \<or> sublist w (c # ys)"
proof
  assume "sublist w (xs @ c # ys)"
  then consider "sublist w xs" | "sublist w (c # ys)"
    | w1 w2 where "w = w1 @ w2" "suffix w1 xs" "prefix w2 (c # ys)"
    by (auto simp: sublist_append)
  then show "sublist w xs \<or> sublist w (c # ys)"
  proof cases
    case 3
    show ?thesis
    proof (cases "w1 = [] \<or> w2 = []")
      case True
      with 3 show ?thesis by auto
    next
      case False
      with 3 have "hd w2 = c" "w2 \<noteq> []" by (auto simp: prefix_Cons)
      moreover from False 3 have "set w2 \<subseteq> set (tl w)" by (cases w1) auto
      ultimately show ?thesis using assms by (metis hd_in_set subsetD)
    qed
  qed auto
next
  assume "sublist w xs \<or> sublist w (c # ys)"
  then show "sublist w (xs @ c # ys)" by (auto simp: sublist_append)
qed

lemma sublist_end_delim:
  assumes "c \<notin> set (butlast w)"
  shows "sublist w (xs @ c # ys) \<longleftrightarrow> sublist w (xs @ [c]) \<or> sublist w ys"
proof
  have split: "xs @ c # ys = (xs @ [c]) @ ys" by simp
  assume "sublist w (xs @ c # ys)"
  then consider "sublist w (xs @ [c])" | "sublist w ys"
    | w1 w2 where "w = w1 @ w2" "suffix w1 (xs @ [c])" "prefix w2 ys"
    unfolding split sublist_append by blast
  then show "sublist w (xs @ [c]) \<or> sublist w ys"
  proof cases
    case 3
    show ?thesis
    proof (cases "w1 = [] \<or> w2 = []")
      case True
      with 3 show ?thesis by auto
    next
      case False
      with 3 have "last w1 = c" "w1 \<noteq> []"
        by (auto simp: suffix_def) (metis last_appendR last_snoc)
      moreover from False 3 have "set w1 \<subseteq> set (butlast w)"
        by (simp add: butlast_append)
      ultimately show ?thesis using assms by (metis last_in_set subsetD)
    qed
  qed auto
next
  have split: "xs @ c # ys = (xs @ [c]) @ ys" by simp
  assume "sublist w (xs @ [c]) \<or> sublist w ys"
  then show "sublist w (xs @ c # ys)" unfolding split sublist_append by blast
qed

lemma sublist_sep:
  assumes "c \<notin> set w"
  shows "sublist w (xs @ c # ys) \<longleftrightarrow> sublist w xs \<or> sublist w ys"
proof -
  from assms have "c \<notin> set (tl w)" by (cases w) auto
  then have "sublist w (xs @ c # ys) \<longleftrightarrow> sublist w xs \<or> sublist w (c # ys)"
    by (rule sublist_start_delim)
  moreover have "sublist w (c # ys) \<longleftrightarrow> sublist w ys"
    using assms by (cases w) (auto simp: sublist_Cons_right)
  ultimately show ?thesis by simp
qed

lemma sublist_delimited:
  assumes "m \<noteq> []" "hd m \<notin> set (tl w)" "last m \<notin> set (butlast w)"
  shows "sublist w (pre @ m @ post) \<longleftrightarrow> sublist w pre \<or> sublist w m \<or> sublist w post"
proof -
  obtain c m' where m: "m = c # m'" using assms(1) by (cases m) auto
  show ?thesis
  proof (cases post)
    case Nil
    with m assms(2) show ?thesis by (auto simp add: sublist_start_delim)
  next
    case (Cons d post')
    have "sublist w (pre @ m @ post) \<longleftrightarrow> sublist w pre \<or> sublist w (m @ post)"
      using m assms(2) by (simp add: sublist_start_delim)
    moreover have "sublist w (m @ post) \<longleftrightarrow> sublist w m \<or> sublist w post"
    proof -
      have "m @ post = butlast m @ last m # post" using assms(1) by simp
      then have "sublist w (m @ post) \<longleftrightarrow> sublist w (butlast m @ [last m]) \<or> sublist w post"
        using sublist_end_delim [OF assms(3)] by metis
      then show ?thesis using assms(1) by simp
    qed
    ultimately show ?thesis by blast
  qed
qed

text \<open>An occurrence that ends in the last character of the word cannot end inside a text
  without that character.\<close>

lemma sublist_append_butlast:
  assumes "w \<noteq> []" "last w \<notin> set v"
  shows "sublist w (xs @ v) \<longleftrightarrow> sublist w xs"
proof
  assume "sublist w (xs @ v)"
  then consider "sublist w xs" | "sublist w v"
    | w1 w2 where "w = w1 @ w2" "suffix w1 xs" "prefix w2 v"
    unfolding sublist_append by blast
  then show "sublist w xs"
  proof cases
    case 2
    then have "set w \<subseteq> set v" by (rule set_mono_sublist)
    with assms show ?thesis by (metis last_in_set subsetD)
  next
    case 3
    show ?thesis
    proof (cases "w2 = []")
      case True
      with 3 show ?thesis by auto
    next
      case False
      with 3 have "last w = last w2" by simp
      moreover from 3 have "set w2 \<subseteq> set v" by (simp add: set_mono_prefix)
      ultimately show ?thesis using assms False by (metis last_in_set subsetD)
    qed
  qed
next
  assume "sublist w xs"
  then show "sublist w (xs @ v)" by (simp add: sublist_append)
qed

section \<open>Replacing a substring\<close>

lemma prefix_before_occurrence:
  assumes "x \<noteq> []" "prefix w (x @ w @ y)"
  shows "prefix w (x @ butlast w)"
proof (cases "w = []")
  case True
  then show ?thesis by simp
next
  case False
  have "prefix (butlast w) (w @ y)"
    using prefixeq_butlast [of w] by simp
  then have "prefix (x @ butlast w) (x @ w @ y)" by simp
  moreover have "length w \<le> length (x @ butlast w)"
    using assms(1) False by (cases x) auto
  ultimately show ?thesis using assms(2) prefix_length_prefix by blast
qed

lemma prefix_start_delim:
  assumes "c \<notin> set (tl w)" "xs \<noteq> []" "prefix w (xs @ c # ys)"
  shows "prefix w xs"
proof -
  from assms(3) consider "prefix w xs" | us where "w = xs @ us" "prefix us (c # ys)"
    unfolding prefix_append by blast
  then show ?thesis
  proof cases
    case 2
    show ?thesis
    proof (cases us)
      case Nil
      with 2 show ?thesis by simp
    next
      case (Cons u us')
      with 2 have "w = xs @ c # us'" by simp
      with assms(2) have "c \<in> set (tl w)" by simp
      with assms(1) show ?thesis by simp
    qed
  qed
qed

lemma prefix_end_delim:
  assumes "c \<notin> set (butlast w)" "prefix w (xs @ c # ys)"
  shows "prefix w (xs @ [c])"
proof -
  have "prefix w ((xs @ [c]) @ ys)" using assms(2) by simp
  then consider "prefix w (xs @ [c])" | us where "w = (xs @ [c]) @ us" "prefix us ys"
    unfolding prefix_append by blast
  then show ?thesis
  proof cases
    case 2
    show ?thesis
    proof (cases "us = []")
      case True
      with 2 show ?thesis by simp
    next
      case False
      with 2 have "c \<in> set (butlast w)" by (simp add: butlast_append)
      with assms(1) show ?thesis by simp
    qed
  qed
qed

lemma str_replace_absent:
  "\<not> sublist old s \<Longrightarrow> str_replace old new s = s"
proof (induction s)
  case Nil
  then show ?case by auto
next
  case (Cons c cs)
  from Cons.prems have "old \<noteq> []" by auto
  moreover from Cons.prems have "\<not> prefix old (c # cs)" by auto
  moreover from Cons.prems have "\<not> sublist old cs" by (simp add: sublist_Cons_right)
  ultimately show ?case using Cons.IH by simp
qed

lemma str_replace_hit:
  assumes "old \<noteq> []"
  shows "str_replace old new (old @ b) = new @ str_replace old new b"
proof -
  from assms obtain c cs where eq: "old @ b = c # cs" by (cases old) auto
  have "prefix old (c # cs)" unfolding eq [symmetric] by simp
  then have "str_replace old new (c # cs) = new @ str_replace old new (drop (length old) (c # cs))"
    using assms by simp
  then show ?thesis unfolding eq [symmetric] by simp
qed

lemma str_replace_first:
  assumes "old \<noteq> []" "\<not> sublist old (a @ butlast old)"
  shows "str_replace old new (a @ old @ b) = a @ new @ str_replace old new b"
  using assms(2)
proof (induction a)
  case Nil
  show ?case using str_replace_hit [OF assms(1)] by simp
next
  case (Cons x a)
  have "\<not> prefix old ((x # a) @ butlast old)"
    using Cons.prems by auto
  then have "\<not> prefix old ((x # a) @ old @ b)"
    using prefix_before_occurrence [of "x # a" old b] by blast
  moreover from Cons.prems have "\<not> sublist old (a @ butlast old)"
    by (simp add: sublist_Cons_right)
  ultimately show ?case using Cons.IH assms(1) by simp
qed

lemma str_replace_start_delim:
  assumes "old \<noteq> []" "c \<notin> set (tl old)"
  shows "str_replace old new (xs @ c # ys) = str_replace old new xs @ str_replace old new (c # ys)"
proof (induction xs rule: length_induct)
  case (1 xs)
  show ?case
  proof (cases xs)
    case Nil
    then show ?thesis using assms(1) by simp
  next
    case (Cons x xs')
    show ?thesis
    proof (cases "prefix old (xs @ c # ys)")
      case True
      have p: "prefix old xs"
        using prefix_start_delim [OF assms(2) _ True] Cons by simp
      then have le: "length old \<le> length xs" by (rule prefix_length_le)
      have d: "drop (length old) (xs @ c # ys) = drop (length old) xs @ c # ys"
        using le by simp
      have "length (drop (length old) xs) < length xs"
        using assms(1) Cons by simp
      with 1 have ih: "str_replace old new (drop (length old) xs @ c # ys) =
          str_replace old new (drop (length old) xs) @ str_replace old new (c # ys)"
        by blast
      have "str_replace old new (xs @ c # ys) =
          new @ str_replace old new (drop (length old) (xs @ c # ys))"
        using True assms(1) Cons by simp
      moreover have "str_replace old new xs = new @ str_replace old new (drop (length old) xs)"
        using p assms(1) Cons by simp
      ultimately show ?thesis using ih d by simp
    next
      case False
      then have np: "\<not> prefix old xs" using prefix_prefix by blast
      have "length xs' < length xs" using Cons by simp
      with 1 have ih: "str_replace old new (xs' @ c # ys) =
          str_replace old new xs' @ str_replace old new (c # ys)"
        by blast
      have "str_replace old new (xs @ c # ys) = x # str_replace old new (xs' @ c # ys)"
        using False assms(1) Cons by simp
      moreover have "str_replace old new xs = x # str_replace old new xs'"
        using np assms(1) Cons by simp
      ultimately show ?thesis using ih by simp
    qed
  qed
qed

lemma str_replace_end_delim:
  assumes "old \<noteq> []" "c \<notin> set (butlast old)"
  shows "str_replace old new (xs @ c # ys) = str_replace old new (xs @ [c]) @ str_replace old new ys"
proof (induction xs rule: length_induct)
  case (1 xs)
  obtain z zs where z: "xs @ c # ys = z # zs" and z': "xs @ [c] = z # take (length xs) zs"
    by (cases xs) auto
  show ?case
  proof (cases "prefix old (xs @ c # ys)")
    case True
    then have p: "prefix old (xs @ [c])" by (rule prefix_end_delim [OF assms(2)])
    then have le: "length old \<le> Suc (length xs)" using prefix_length_le by fastforce
    have a: "str_replace old new (xs @ c # ys) =
        new @ str_replace old new (drop (length old) (xs @ c # ys))"
      using True assms(1) unfolding z by simp
    have b: "str_replace old new (xs @ [c]) =
        new @ str_replace old new (drop (length old) (xs @ [c]))"
      using p assms(1) unfolding z' by simp
    show ?thesis
    proof (cases "length old = Suc (length xs)")
      case True
      then have "drop (length old) (xs @ c # ys) = ys" "drop (length old) (xs @ [c]) = []"
        by simp_all
      with a b assms(1) show ?thesis by simp
    next
      case False
      with le have lt: "length old \<le> length xs" by simp
      then have d: "drop (length old) (xs @ c # ys) = drop (length old) xs @ c # ys"
        "drop (length old) (xs @ [c]) = drop (length old) xs @ [c]"
        by simp_all
      have "length (drop (length old) xs) < length xs"
        using assms(1) lt by (cases xs) auto
      with 1 have "str_replace old new (drop (length old) xs @ c # ys) =
          str_replace old new (drop (length old) xs @ [c]) @ str_replace old new ys"
        by blast
      with a b d show ?thesis by simp
    qed
  next
    case False
    then have np: "\<not> prefix old (xs @ [c])"
      by (metis append.assoc append_Cons append_Nil prefix_prefix)
    show ?thesis
    proof (cases xs)
      case Nil
      with False np assms(1) show ?thesis by simp
    next
      case (Cons x xs')
      have "length xs' < length xs" using Cons by simp
      with 1 have "str_replace old new (xs' @ c # ys) =
          str_replace old new (xs' @ [c]) @ str_replace old new ys"
        by blast
      with False np assms(1) Cons show ?thesis by simp
    qed
  qed
qed

lemma str_replace_present:
  assumes "old \<noteq> []"
  shows "sublist old s \<Longrightarrow> sublist new (str_replace old new s)"
proof (induction s rule: length_induct)
  case (1 s)
  show ?case
  proof (cases s)
    case Nil
    with 1 assms show ?thesis by simp
  next
    case (Cons c cs)
    show ?thesis
    proof (cases "prefix old s")
      case True
      with assms Cons show ?thesis by simp
    next
      case False
      with 1 Cons have "sublist old cs" by (simp add: sublist_Cons_right)
      moreover have "length cs < length s" using Cons by simp
      ultimately have "sublist new (str_replace old new cs)" using 1 by blast
      with False assms Cons show ?thesis by (simp add: sublist_Cons_right)
    qed
  qed
qed

section \<open>What the matcher finds\<close>

lemma re_match_lits:
  "re_match (map Lit w @ p) s = (if prefix w s then re_match p (drop (length w) s) else None)"
proof (induction w arbitrary: s)
  case Nil
  then show ?case by simp
next
  case (Cons c w)
  then show ?case by (cases s) auto
qed

lemma re_match_word:
  "re_match (map Lit w) s = (if prefix w s then Some (drop (length w) s) else None)"
  using re_match_lits [of w "[]" s] by simp

lemma re_match_lazy_word_None:
  assumes "w \<noteq> []"
  shows "re_match (AnyLazy # map Lit w) s = None \<longleftrightarrow> \<not> sublist w s"
proof (induction s)
  case Nil
  then show ?case using assms by (simp add: re_match_word)
next
  case (Cons x xs)
  then show ?case
    by (auto simp: re_match_word sublist_Cons_right split: option.splits)
qed

lemma re_match_lazy_word_first:
  assumes "w \<noteq> []" "\<not> sublist w (u @ butlast w)"
  shows "re_match (AnyLazy # map Lit w) (u @ w @ r) = Some r"
  using assms(2)
proof (induction u)
  case Nil
  obtain x xs where eq: "w @ r = x # xs" using assms(1) by (cases w) auto
  have "re_match (map Lit w) (w @ r) = Some r" by (simp add: re_match_word)
  then show ?case unfolding eq by simp
next
  case (Cons x u)
  have "\<not> prefix w ((x # u) @ butlast w)" using Cons.prems by auto
  then have "\<not> prefix w ((x # u) @ w @ r)"
    using prefix_before_occurrence [of "x # u" w r] by blast
  then have "re_match (map Lit w) (x # u @ w @ r) = None" by (simp add: re_match_word)
  moreover from Cons.prems have "\<not> sublist w (u @ butlast w)"
    by (simp add: sublist_Cons_right)
  ultimately show ?case using Cons.IH by simp
qed

lemma re_match_lazy_word_SomeD:
  assumes "w \<noteq> []" "re_match (AnyLazy # map Lit w) s = Some r"
  shows "\<exists>u. s = u @ w @ r \<and> \<not> sublist w (u @ butlast w)"
  using assms(2)
proof (induction s)
  case Nil
  then show ?case using assms(1) by (simp add: re_match_word)
next
  case (Cons x xs)
  show ?case
  proof (cases "prefix w (x # xs)")
    case True
    with Cons.prems have "r = drop (length w) (x # xs)" by (simp add: re_match_word)
    with True have "x # xs = [] @ w @ r" by (metis append_Nil prefix_def append_eq_conv_conj)
    moreover have "\<not> sublist w ([] @ butlast w)"
      using assms(1) by (metis append_Nil sublist_length_le length_butlast diff_less less_numeral_extra(1) length_greater_0_conv not_le)
    ultimately show ?thesis by blast
  next
    case False
    with Cons.prems have "re_match (AnyLazy # map Lit w) xs = Some r"
      by (simp add: re_match_word)
    with Cons.IH obtain u where u: "xs = u @ w @ r" "\<not> sublist w (u @ butlast w)" by blast
    have "\<not> prefix w ((x # u) @ butlast w)"
    proof
      assume "prefix w ((x # u) @ butlast w)"
      moreover have "prefix ((x # u) @ butlast w) (x # xs)"
        unfolding u(1) using prefixeq_butlast [of w] by simp
      ultimately show False using False prefix_order.trans by blast
    qed
    with u have "x # xs = (x # u) @ w @ r \<and> \<not> sublist w ((x # u) @ butlast w)"
      by (simp add: sublist_Cons_right)
    then show ?thesis by blast
  qed
qed

text \<open>The part of the pattern after the opening word: a lazy run up to the first \<open>g\<close>,
  then a lazy run up to the first closing word.\<close>

lemma re_match_tail_first:
  assumes "cl \<noteq> []" "g \<notin> set a" "\<not> sublist cl (u @ butlast cl)"
  shows "re_match (AnyLazy # Lit g # AnyLazy # map Lit cl) (a @ g # u @ cl @ r) = Some r"
  using assms(2)
proof (induction a)
  case Nil
  have "re_match (AnyLazy # map Lit cl) (u @ cl @ r) = Some r"
    by (rule re_match_lazy_word_first [OF assms(1,3)])
  then show ?case by simp
next
  case (Cons x a)
  then have "x \<noteq> g" "g \<notin> set a" by auto
  with Cons.IH show ?case by simp
qed

lemma re_match_tail_exists:
  assumes "cl \<noteq> []"
  shows "re_match (AnyLazy # Lit g # AnyLazy # map Lit cl) (a @ g # u @ cl @ r) \<noteq> None"
proof (induction a)
  case Nil
  have "sublist cl (u @ cl @ r)" by simp
  then have "re_match (AnyLazy # map Lit cl) (u @ cl @ r) \<noteq> None"
    using re_match_lazy_word_None [OF assms] by blast
  then show ?case by auto
next
  case (Cons x a)
  then show ?case by (auto split: option.splits)
qed

lemma re_match_tail_SomeD:
  assumes "cl \<noteq> []" "re_match (AnyLazy # Lit g # AnyLazy # map Lit cl) s = Some r"
  shows "\<exists>a u. s = a @ g # u @ cl @ r \<and> g \<notin> set a \<and> \<not> sublist cl (u @ butlast cl)"
  using assms(2)
proof (induction s)
  case Nil
  then show ?case by simp
next
  case (Cons x xs)
  show ?case
  proof (cases "x = g")
    case True
    show ?thesis
    proof (cases "re_match (AnyLazy # map Lit cl) xs")
      case None
      then have no: "\<not> sublist cl xs" using re_match_lazy_word_None [OF assms(1)] by blast
      from None True Cons.prems
      have "re_match (AnyLazy # Lit g # AnyLazy # map Lit cl) xs = Some r" by simp
      with Cons.IH obtain a u where "xs = a @ g # u @ cl @ r" by blast
      then have "sublist cl xs" by (metis append_Cons sublist_appendI append.assoc)
      with no show ?thesis by simp
    next
      case (Some r')
      with True Cons.prems have "r' = r" by simp
      with Some obtain u where "xs = u @ cl @ r" "\<not> sublist cl (u @ butlast cl)"
        using re_match_lazy_word_SomeD [OF assms(1)] by blast
      with True have "x # xs = [] @ g # u @ cl @ r \<and> g \<notin> set [] \<and> \<not> sublist cl (u @ butlast cl)"
        by simp
      then show ?thesis by blast
    qed
  next
    case False
    with Cons.prems have "re_match (AnyLazy # Lit g # AnyLazy # map Lit cl) xs = Some r" by simp
    with Cons.IH obtain a u where
      "xs = a @ g # u @ cl @ r" "g \<notin> set a" "\<not> sublist cl (u @ butlast cl)" by blast
    with False have "x # xs = (x # a) @ g # u @ cl @ r \<and> g \<notin> set (x # a) \<and>
        \<not> sublist cl (u @ butlast cl)" by auto
    then show ?thesis by blast
  qed
qed

lemma re_search_None:
  "re_search p s = None \<longleftrightarrow> (\<forall>t. suffix t s \<longrightarrow> re_match p t = None)"
proof (induction s)
  case Nil
  then show ?case by (auto split: option.splits)
next
  case (Cons x xs)
  then show ?case by (auto simp: suffix_Cons split: option.splits)
qed

lemma re_search_Some:
  "re_search p s = Some (before, rest) \<longleftrightarrow>
     (\<exists>t. s = before @ t \<and> re_match p t = Some rest \<and>
          (\<forall>b t'. s = b @ t' \<and> length b < length before \<longrightarrow> re_match p t' = None))"
proof (induction s arbitrary: before)
  case Nil
  then show ?case by (auto split: option.splits)
next
  case (Cons x xs)
  show ?case
  proof (cases "re_match p (x # xs)")
    case (Some r)
    show ?thesis
    proof
      assume "re_search p (x # xs) = Some (before, rest)"
      with Some show "\<exists>t. x # xs = before @ t \<and> re_match p t = Some rest \<and>
          (\<forall>b t'. x # xs = b @ t' \<and> length b < length before \<longrightarrow> re_match p t' = None)"
        by simp
    next
      assume "\<exists>t. x # xs = before @ t \<and> re_match p t = Some rest \<and>
          (\<forall>b t'. x # xs = b @ t' \<and> length b < length before \<longrightarrow> re_match p t' = None)"
      then obtain t where t: "x # xs = before @ t" "re_match p t = Some rest"
        and first: "\<forall>b t'. x # xs = b @ t' \<and> length b < length before \<longrightarrow> re_match p t' = None"
        by blast
      have "before = []"
      proof (rule ccontr)
        assume "before \<noteq> []"
        then have "x # xs = [] @ (x # xs) \<and> length ([]::string) < length before" by simp
        with first have "re_match p (x # xs) = None" by blast
        with Some show False by simp
      qed
      with t have "re_match p (x # xs) = Some rest" by simp
      with \<open>before = []\<close> show "re_search p (x # xs) = Some (before, rest)" by simp
    qed
  next
    case None
    show ?thesis
    proof
      assume "re_search p (x # xs) = Some (before, rest)"
      with None obtain b' where b': "re_search p xs = Some (b', rest)" "before = x # b'"
        by (auto split: option.splits)
      with Cons.IH [of b'] obtain t where t: "xs = b' @ t" "re_match p t = Some rest"
        and first: "\<forall>b t'. xs = b @ t' \<and> length b < length b' \<longrightarrow> re_match p t' = None"
        by blast
      have "\<forall>b t'. x # xs = b @ t' \<and> length b < length before \<longrightarrow> re_match p t' = None"
      proof (intro allI impI)
        fix b t'
        assume a: "x # xs = b @ t' \<and> length b < length before"
        show "re_match p t' = None"
        proof (cases b)
          case Nil
          with a None show ?thesis by simp
        next
          case (Cons y b'')
          with a b' have "xs = b'' @ t' \<and> length b'' < length b'" by simp
          with first show ?thesis by blast
        qed
      qed
      with t b' show "\<exists>t. x # xs = before @ t \<and> re_match p t = Some rest \<and>
          (\<forall>b t'. x # xs = b @ t' \<and> length b < length before \<longrightarrow> re_match p t' = None)"
        by simp
    next
      assume "\<exists>t. x # xs = before @ t \<and> re_match p t = Some rest \<and>
          (\<forall>b t'. x # xs = b @ t' \<and> length b < length before \<longrightarrow> re_match p t' = None)"
      then obtain t where t: "x # xs = before @ t" "re_match p t = Some rest"
        and first: "\<forall>b t'. x # xs = b @ t' \<and> length b < length before \<longrightarrow> re_match p t' = None"
        by blast
      from t None obtain b' where b': "before = x # b'" "xs = b' @ t"
        by (cases before) auto
      have "\<forall>b t'. xs = b @ t' \<and> length b < length b' \<longrightarrow> re_match p t' = None"
      proof (intro allI impI)
        fix b t'
        assume "xs = b @ t' \<and> length b < length b'"
        with b' have "x # xs = (x # b) @ t' \<and> length (x # b) < length before" by simp
        with first show "re_match p t' = None" by blast
      qed
      with t b' Cons.IH [of b'] have "re_search p xs = Some (b', rest)" by blast
      with None b' show "re_search p (x # xs) = Some (before, rest)" by simp
    qed
  qed
qed

lemma tag_match_first:
  assumes "cl \<noteq> []" "g \<notin> set a" "\<not> sublist cl (u @ butlast cl)"
  shows "re_match (map Lit op @ AnyLazy # Lit g # AnyLazy # map Lit cl)
           (op @ a @ g # u @ cl @ r) = Some r"
  using re_match_tail_first [OF assms] by (simp add: re_match_lits)

lemma tag_match_exists:
  assumes "cl \<noteq> []"
  shows "re_match (map Lit op @ AnyLazy # Lit g # AnyLazy # map Lit cl)
           (op @ a @ g # u @ cl @ r) \<noteq> None"
  using re_match_tail_exists [OF assms] by (simp add: re_match_lits)

lemma tag_match_SomeD:
  assumes "cl \<noteq> []"
    and "re_match (map Lit op @ AnyLazy # Lit g # AnyLazy # map Lit cl) s = Some r"
  shows "\<exists>a u. s = op @ a @ g # u @ cl @ r \<and> g \<notin> set a \<and> \<not> sublist cl (u @ butlast cl)"
proof -
  from assms(2) have p: "prefix op s"
    and m: "re_match (AnyLazy # Lit g # AnyLazy # map Lit cl) (drop (length op) s) = Some r"
    by (simp_all add: re_match_lits split: if_splits)
  from re_match_tail_SomeD [OF assms(1) m] obtain a u where
    "drop (length op) s = a @ g # u @ cl @ r" "g \<notin> set a" "\<not> sublist cl (u @ butlast cl)"
    by blast
  moreover from p have "s = op @ drop (length op) s"
    by (metis append_eq_conv_conj prefix_def)
  ultimately have "s = op @ a @ g # u @ cl @ r \<and> g \<notin> set a \<and> \<not> sublist cl (u @ butlast cl)"
    by simp
  then show ?thesis by blast
qed

lemma tag_match_needs_open:
  "\<not> prefix op s \<Longrightarrow> re_match (map Lit op @ p) s = None"
  by (simp add: re_match_lits)

lemma tag_search_first:
  assumes "cl \<noteq> []" "\<not> sublist op (before @ butlast op)" "g \<notin> set a"
    "\<not> sublist cl (u @ butlast cl)"
  shows "re_search (map Lit op @ AnyLazy # Lit g # AnyLazy # map Lit cl)
           (before @ op @ a @ g # u @ cl @ rest) = Some (before, rest)"
proof -
  let ?p = "map Lit op @ AnyLazy # Lit g # AnyLazy # map Lit cl"
  let ?t = "op @ a @ g # u @ cl @ rest"
  have "re_match ?p ?t = Some rest" by (rule tag_match_first [OF assms(1,3,4)])
  moreover have "re_match ?p t' = None"
    if "before @ ?t = b @ t' \<and> length b < length before" for b t'
  proof -
    from that obtain x where x: "before = b @ x" "x \<noteq> []" "t' = x @ ?t"
      by (auto simp: append_eq_append_conv2)
    have "\<not> prefix op t'"
    proof
      assume "prefix op t'"
      then have "prefix op (x @ op @ a @ g # u @ cl @ rest)" using x by simp
      then have "prefix op (x @ butlast op)"
        using prefix_before_occurrence [OF x(2)] by blast
      then have "sublist op (b @ (x @ butlast op))"
        by (metis prefix_def sublist_appendI)
      with assms(2) x show False by simp
    qed
    then show ?thesis by (rule tag_match_needs_open)
  qed
  ultimately show ?thesis unfolding re_search_Some by blast
qed

lemma tag_search_None:
  assumes "cl \<noteq> []"
  shows "re_search (map Lit op @ AnyLazy # Lit g # AnyLazy # map Lit cl) s = None \<longleftrightarrow>
         \<not> (\<exists>before a u rest. s = before @ op @ a @ g # u @ cl @ rest)"
proof
  let ?p = "map Lit op @ AnyLazy # Lit g # AnyLazy # map Lit cl"
  assume none: "re_search ?p s = None"
  show "\<not> (\<exists>before a u rest. s = before @ op @ a @ g # u @ cl @ rest)"
  proof
    assume "\<exists>before a u rest. s = before @ op @ a @ g # u @ cl @ rest"
    then obtain before a u rest where s: "s = before @ op @ a @ g # u @ cl @ rest" by blast
    then have "suffix (op @ a @ g # u @ cl @ rest) s" by (simp add: suffix_def)
    with none have "re_match ?p (op @ a @ g # u @ cl @ rest) = None"
      unfolding re_search_None by blast
    with tag_match_exists [OF assms] show False by blast
  qed
next
  let ?p = "map Lit op @ AnyLazy # Lit g # AnyLazy # map Lit cl"
  assume no: "\<not> (\<exists>before a u rest. s = before @ op @ a @ g # u @ cl @ rest)"
  have "re_match ?p t = None" if "suffix t s" for t
  proof (cases "re_match ?p t")
    case (Some r)
    from tag_match_SomeD [OF assms Some] obtain a u where "t = op @ a @ g # u @ cl @ r" by blast
    with that no show ?thesis by (auto simp: suffix_def)
  qed simp
  then show "re_search ?p s = None" unfolding re_search_None by blast
qed

lemma tag_search_SomeD:
  assumes "cl \<noteq> []" "op \<noteq> []"
    and "re_search (map Lit op @ AnyLazy # Lit g # AnyLazy # map Lit cl) s = Some (before, rest)"
  shows "\<exists>a u. s = before @ op @ a @ g # u @ cl @ rest \<and> \<not> sublist op (before @ butlast op) \<and>
           g \<notin> set a \<and> \<not> sublist cl (u @ butlast cl)"
proof -
  let ?p = "map Lit op @ AnyLazy # Lit g # AnyLazy # map Lit cl"
  from assms(3) obtain t where t: "s = before @ t" "re_match ?p t = Some rest"
    and first: "\<And>b t'. s = b @ t' \<Longrightarrow> length b < length before \<Longrightarrow> re_match ?p t' = None"
    unfolding re_search_Some by blast
  from tag_match_SomeD [OF assms(1) t(2)] obtain a u where
    au: "t = op @ a @ g # u @ cl @ rest" "g \<notin> set a" "\<not> sublist cl (u @ butlast cl)" by blast
  have "\<not> sublist op (before @ butlast op)"
  proof
    assume "sublist op (before @ butlast op)"
    then obtain b c where bc: "before @ butlast op = b @ op @ c" by (auto simp: sublist_def)
    then have "length b + length op \<le> length before + length (butlast op)"
      by (metis length_append le_add1 add.assoc)
    moreover have "length (butlast op) < length op" using assms(2) by simp
    ultimately have lt: "length b < length before" by linarith
    then obtain x where x: "before = b @ x" "x \<noteq> []"
      using bc by (auto simp: append_eq_append_conv2)
    with bc have "x @ butlast op = op @ c" by simp
    then have "prefix op (x @ butlast op)" by simp
    moreover have "prefix (x @ butlast op) (x @ op)"
      using prefixeq_butlast [of op] by simp
    ultimately have "prefix op (x @ op)" using prefix_order.trans by blast
    then obtain y where y: "x @ op = op @ y" by (auto simp: prefix_def)
    have "s = b @ (x @ op) @ a @ g # u @ cl @ rest" using t au x by simp
    then have s: "s = b @ op @ (y @ a) @ g # u @ cl @ rest" unfolding y by simp
    from first [OF s lt] tag_match_exists [OF assms(1)] show False by blast
  qed
  with t au show ?thesis by blast
qed

section \<open>The fragment, line by line\<close>

lemma line_free_append:
  assumes "line_free w l" "\<not> sublist w t"
  shows "\<not> sublist w (l @ t)"
proof -
  from assms(1) have ne: "l \<noteq> []" and c: "last l \<notin> set w" and n: "\<not> sublist w l"
    by (simp_all add: line_free_def)
  have eq: "l @ t = butlast l @ last l # t"
    using ne by simp
  have "\<not> sublist w (butlast l)"
    using n sublist_butlast sublist_order.order_trans by blast
  with c assms(2) have "\<not> sublist w (butlast l @ last l # t)"
    by (simp add: sublist_sep)
  then show ?thesis unfolding eq .
qed

lemma concat_free:
  "list_all (line_free w) ls \<Longrightarrow> \<not> sublist w t \<Longrightarrow> \<not> sublist w (concat ls @ t)"
  by (induction ls) (auto simp: line_free_append)

lemma plain_text_link_class: "plain_text (link_class ap l)"
  by (simp add: plain_text_def link_class_def Let_def sublist_code)

lemma plain_text_icon_class: "plain_text (icon_class ap l)"
  by (simp add: plain_text_def icon_class_def Let_def sublist_code)

lemmas plain_classes =
  plain_text_link_class [unfolded plain_text_def] plain_text_icon_class [unfolded plain_text_def]

lemma get_sidebar_lines:
  \<open>\<exists>ls. get_sidebar ap =
     concat ((''<aside class="w-64 bg-surface-light dark:bg-surface-dark border-r border-border-light dark:border-border-dark flex flex-col h-full flex-shrink-0 z-20">\<newline>'') # ls) @ ''</aside>'' \<and>
     list_all plain_line ls \<and> plain_line ''<aside class="w-64 bg-surface-light dark:bg-surface-dark border-r border-border-light dark:border-border-dark flex flex-col h-full flex-shrink-0 z-20">\<newline>''\<close>
  unfolding get_sidebar_def
  apply (intro exI conjI)
   apply (rule refl)
  apply (simp only: list.pred_inject)
  apply (intro conjI TrueI)
  apply (simp_all add: plain_line_def plain_text_def sublist_code sublist_sep plain_classes)
  done

lemma plain_line_free:
  assumes "plain_line l" "w \<in> {''</aside>'', ''</head>'', ''family=Material+Icons+Round''}"
  shows "line_free w l"
proof -
  from assms(1) have l: "l \<noteq> []" "last l = CHR ''\<newline>''" "\<not> sublist ''</as'' l"
    "\<not> sublist ''</he'' l" "CHR ''+'' \<notin> set l"
    by (simp_all add: plain_line_def plain_text_def)
  have a: "sublist ''</as'' ''</aside>''" "sublist ''</he'' ''</head>''"
    by (simp_all add: sublist_code)
  have "\<not> sublist ''</aside>'' l" "\<not> sublist ''</head>'' l"
    using l(3,4) a sublist_order.order_trans by blast+
  moreover have "\<not> sublist ''family=Material+Icons+Round'' l"
    using l(5) set_mono_sublist [of "''family=Material+Icons+Round''" l] by auto
  ultimately show ?thesis using assms(2) l(1,2) by (auto simp: line_free_def)
qed


lemma get_sidebar_shape:
  "\<exists>attrs inner. get_sidebar ap = ''<aside'' @ attrs @ ''>'' @ inner @ ''</aside>'' \<and>
     CHR ''>'' \<notin> set attrs \<and> \<not> sublist ''</aside>'' (inner @ ''</aside'')"
proof -
  from get_sidebar_lines [of ap] obtain ls where
    ls: \<open>get_sidebar ap =
      concat ((''<aside class="w-64 bg-surface-light dark:bg-surface-dark border-r border-border-light dark:border-border-dark flex flex-col h-full flex-shrink-0 z-20">\<newline>'') # ls) @ ''</aside>''\<close>
    and pl: "list_all plain_line ls"
    by blast
  define attrs :: string where
    \<open>attrs = '' class="w-64 bg-surface-light dark:bg-surface-dark border-r border-border-light dark:border-border-dark flex flex-col h-full flex-shrink-0 z-20"''\<close>
  define inner where "inner = concat (''\<newline>'' # ls)"
  have "list_all (line_free ''</aside>'') ls"
    using pl by (simp add: list_all_iff plain_line_free)
  moreover have "line_free ''</aside>'' ''\<newline>''"
    by (simp add: line_free_def sublist_code)
  ultimately have "list_all (line_free ''</aside>'') (''\<newline>'' # ls)" by simp
  then have "\<not> sublist ''</aside>'' (concat (''\<newline>'' # ls) @ ''</aside'')"
    by (rule concat_free) (simp add: sublist_code)
  moreover have "get_sidebar ap = ''<aside'' @ attrs @ ''>'' @ inner @ ''</aside>''"
    unfolding ls attrs_def inner_def by simp
  moreover have "CHR ''>'' \<notin> set attrs" unfolding attrs_def by simp
  ultimately show ?thesis unfolding inner_def by blast
qed

lemma get_sidebar_free:
  assumes "w \<in> {''</head>'', ''family=Material+Icons+Round''}"
  shows "\<not> sublist w (get_sidebar ap)"
proof -
  from get_sidebar_lines [of ap] obtain ls l where
    ls: "get_sidebar ap = concat (l # ls) @ ''</aside>''"
    and pl: "list_all plain_line ls" "plain_line l"
    by blast
  have "list_all (line_free w) (l # ls)"
    using pl assms by (auto simp add: list_all_iff plain_line_free)
  moreover have "\<not> sublist w ''</aside>''"
    using assms by (auto simp: sublist_code)
  ultimately show ?thesis unfolding ls by (rule concat_free)
qed

lemma get_sidebar_no_backslash: "CHR 0x5C \<notin> set (get_sidebar ap)"
proof -
  from get_sidebar_lines [of ap] obtain ls l where
    ls: "get_sidebar ap = concat (l # ls) @ ''</aside>''"
    and pl: "list_all plain_line ls" "plain_line l"
    by blast
  then have "\<forall>x\<in>set (l # ls). CHR 0x5C \<notin> set x"
    by (auto simp: list_all_iff plain_line_def plain_text_def)
  then show ?thesis unfolding ls by auto
qed

lemma get_sidebar_ends:
  "get_sidebar ap \<noteq> []" "hd (get_sidebar ap) = CHR ''<''" "last (get_sidebar ap) = CHR ''>''"
proof -
  from get_sidebar_shape [of ap] obtain attrs inner where
    "get_sidebar ap = ''<aside'' @ attrs @ ''>'' @ inner @ ''</aside>''" by blast
  then show "get_sidebar ap \<noteq> []" "hd (get_sidebar ap) = CHR ''<''"
    "last (get_sidebar ap) = CHR ''>''"
    by simp_all
qed

lemma sublist_concat:
  assumes "sublist xs ys"
  shows "sublist (concat xs) (concat ys @ t)"
proof -
  from assms obtain a b where "ys = a @ xs @ b" by (auto simp: sublist_def)
  then have "concat ys @ t = concat a @ concat xs @ (concat b @ t)" by simp
  then show ?thesis by (simp only: sublist_appendI)
qed

lemma nav_link_lines_in_template:
  "\<exists>ls. get_sidebar ap = concat ls @ ''</aside>'' \<and>
     (\<forall>link\<in>set nav_links. sublist (nav_link_lines ap link) ls)"
  unfolding get_sidebar_def
  apply (intro exI conjI)
   apply (rule refl)
  apply (simp only: nav_links_def list.set ball_simps nav_link_lines_def prod.case)
  apply (intro conjI TrueI)
          apply (simp_all add: sublist_code)
  done

lemma nav_links_in_sidebar:
  assumes "link \<in> set nav_links"
  shows "sublist (concat (nav_link_lines ap link)) (get_sidebar ap)"
proof -
  from nav_link_lines_in_template [of ap] obtain ls where
    "get_sidebar ap = concat ls @ ''</aside>''" "sublist (nav_link_lines ap link) ls"
    using assms by blast
  then show ?thesis by (simp only: sublist_concat)
qed

section \<open>The styles of the links\<close>

lemma style_pair_cases:
  "style_pair ap label = (if label = ap then active_pair else hover_pair)"
  by (simp add: style_pair_def link_class_def icon_class_def active_pair_def hover_pair_def)

lemma active_neq_hover: "active_pair \<noteq> hover_pair"
  by (simp add: active_pair_def hover_pair_def)

lemma distinct_nav_labels: "distinct (map fst nav_links)"
  by (simp add: nav_links_def)

lemma filter_eq_distinct:
  "distinct xs \<Longrightarrow> length (filter (\<lambda>x. x = a) xs) = (if a \<in> set xs then 1 else 0)"
  by (induction xs) auto

lemma style_pair_active: "style_pair ap label = active_pair \<longleftrightarrow> label = ap"
  using active_neq_hover by (auto simp add: style_pair_cases)

lemma active_links_count:
  "length (active_links ap) = (if ap \<in> fst ` set nav_links then 1 else 0)"
proof -
  have "length (active_links ap) = length (filter (\<lambda>l. l = ap) (map fst nav_links))"
    by (simp add: active_links_def style_pair_active filter_map comp_def)
  then show ?thesis using filter_eq_distinct [OF distinct_nav_labels, of ap] by simp
qed

text \<open>
  C3. For every link of the nav element, the fragment holds the link's lines with the class
  of its anchor and of its icon computed by \<open>link_class\<close> and \<open>icon_class\<close>; each of the two
  is a fixed base followed by one suffix when the link's label equals the active page and
  by another otherwise. The active suffix of the icon is empty.
\<close>

theorem nav_link_styles:
  "(link \<in> set nav_links \<longrightarrow> sublist (concat (nav_link_lines ap link)) (get_sidebar ap)) \<and>
   link_class ap label =
     ''flex items-center gap-3 px-2 py-2.5 rounded-DEFAULT transition-colors group'' @
     (if label = ap then '' bg-primary/10 text-primary''
      else '' text-text-sub-light dark:text-text-sub-dark hover:bg-gray-50 dark:hover:bg-slate-700/50 hover:text-gray-900 dark:hover:text-white'') \<and>
   icon_class ap label =
     ''material-icons-round text-[20px] transition-colors'' @
     (if label = ap then [] else '' group-hover:text-primary'')"
  using nav_links_in_sidebar [of link ap] by (simp add: link_class_def icon_class_def)

theorem nav_link_styles_witness:
  "(''Toolkit'', ''toolkit.html'', ''construction'') \<in> set nav_links \<and>
   sublist (concat (nav_link_lines ''Toolkit'' (''Toolkit'', ''toolkit.html'', ''construction'')))
     (get_sidebar ''Toolkit'') \<and>
   link_class ''Toolkit'' ''Toolkit'' =
     ''flex items-center gap-3 px-2 py-2.5 rounded-DEFAULT transition-colors group bg-primary/10 text-primary'' \<and>
   icon_class ''Toolkit'' ''Toolkit'' = ''material-icons-round text-[20px] transition-colors'' \<and>
   link_class ''Toolkit'' ''General'' =
     ''flex items-center gap-3 px-2 py-2.5 rounded-DEFAULT transition-colors group text-text-sub-light dark:text-text-sub-dark hover:bg-gray-50 dark:hover:bg-slate-700/50 hover:text-gray-900 dark:hover:text-white'' \<and>
   icon_class ''Toolkit'' ''General'' =
     ''material-icons-round text-[20px] transition-colors group-hover:text-primary''"
proof -
  have m: "(''Toolkit'', ''toolkit.html'', ''construction'') \<in> set nav_links"
    by (simp add: nav_links_def)
  from m nav_link_styles [of "(''Toolkit'', ''toolkit.html'', ''construction'')" "''Toolkit''" "''Toolkit''"]
    nav_link_styles [of "(''Toolkit'', ''toolkit.html'', ''construction'')" "''Toolkit''" "''General''"]
  show ?thesis by simp
qed

lemma inactive_classes:
  assumes "label \<noteq> ap" "label \<noteq> []"
  shows "link_class ap label = link_class [] label" "icon_class ap label = icon_class [] label"
  using assms by (simp_all add: link_class_def icon_class_def)

lemma inactive_fragment:
  assumes "ap \<notin> fst ` set nav_links"
  shows "get_sidebar ap = get_sidebar []"
proof -
  from assms have ne: "''Dashboard'' \<noteq> ap" "''Participants'' \<noteq> ap" "''Reports & Docs'' \<noteq> ap"
    "''AI Assistant'' \<noteq> ap" "''Toolkit'' \<noteq> ap" "''Audits'' \<noteq> ap" "''NDIS Plans'' \<noteq> ap"
    "''General'' \<noteq> ap" "''Help Center'' \<noteq> ap"
    by (auto simp: nav_links_def)
  note eqs = ne [THEN inactive_classes(1)] ne [THEN inactive_classes(2)]
  show ?thesis unfolding get_sidebar_def by (simp only: eqs list.distinct not_False_eq_True)
qed

lemma inactive_fragment_lines:
  "\<exists>ls. get_sidebar [] = concat ls @ ''</aside>'' \<and>
     list_all (line_free ''bg-primary/10 text-primary'') ls"
  unfolding get_sidebar_def
  apply (intro exI conjI)
   apply (rule refl)
  apply (simp only: list.pred_inject)
  apply (intro conjI TrueI)
  apply (simp_all add: line_free_def link_class_def icon_class_def sublist_code)
  done

lemma inactive_fragment_no_active:
  assumes "ap \<notin> fst ` set nav_links"
  shows "\<not> sublist ''bg-primary/10 text-primary'' (get_sidebar ap)"
proof -
  from inactive_fragment_lines obtain ls where
    ls: "get_sidebar [] = concat ls @ ''</aside>''"
    and free: "list_all (line_free ''bg-primary/10 text-primary'') ls"
    by blast
  have "\<not> sublist ''bg-primary/10 text-primary'' ''</aside>''" by (simp add: sublist_code)
  with free have "\<not> sublist ''bg-primary/10 text-primary'' (concat ls @ ''</aside>'')"
    by (rule concat_free)
  then show ?thesis unfolding inactive_fragment [OF assms] ls .
qed

lemma nav_labels_configured:
  "fst ` set nav_links = (snd ` set files - {''Profile''}) \<union> {''Audits'', ''Help Center''}"
  by (auto simp add: nav_links_def files_def)

lemma profile_no_nav_label: "''Profile'' \<notin> fst ` set nav_links"
  by (simp add: nav_links_def)

text \<open>
  C2, as the code has it. The fragment has nine links with computed styles; their labels
  are the configured display names other than \<open>Profile\<close>, and \<open>Audits\<close> and \<open>Help Center\<close>.
  When the active page is one of the nine labels, exactly one link gets the active pair of
  styles, and every link with another label gets the hover pair. For every other active
  page, \<open>Profile\<close> among them, no link gets the active pair, and the active style of a
  link occurs nowhere in the fragment.
\<close>

theorem active_link_count:
  "length (active_links ap) = (if ap \<in> fst ` set nav_links then 1 else 0) \<and>
   (\<forall>link\<in>set nav_links.
      sublist (concat (nav_link_lines ap link)) (get_sidebar ap) \<and>
      style_pair ap (fst link) = (if fst link = ap then active_pair else hover_pair)) \<and>
   (ap \<notin> fst ` set nav_links \<longrightarrow> \<not> sublist ''bg-primary/10 text-primary'' (get_sidebar ap)) \<and>
   fst ` set nav_links = (snd ` set files - {''Profile''}) \<union> {''Audits'', ''Help Center''}"
proof (intro conjI ballI impI)
  show "length (active_links ap) = (if ap \<in> fst ` set nav_links then 1 else 0)"
    by (rule active_links_count)
  show "sublist (concat (nav_link_lines ap link)) (get_sidebar ap)"
    if "link \<in> set nav_links" for link
    using that by (rule nav_links_in_sidebar)
  show "style_pair ap (fst link) = (if fst link = ap then active_pair else hover_pair)"
    for link :: "string \<times> string \<times> string"
    by (rule style_pair_cases)
  show "\<not> sublist ''bg-primary/10 text-primary'' (get_sidebar ap)"
    if "ap \<notin> fst ` set nav_links"
    using that by (rule inactive_fragment_no_active)
  show "fst ` set nav_links = (snd ` set files - {''Profile''}) \<union> {''Audits'', ''Help Center''}"
    by (rule nav_labels_configured)
qed

theorem active_link_count_witness:
  "length (active_links ''Dashboard'') = 1 \<and>
   style_pair ''Dashboard'' ''Dashboard'' = active_pair \<and>
   style_pair ''Dashboard'' ''Toolkit'' = hover_pair \<and>
   length (active_links ''no such page'') = 0 \<and>
   \<not> sublist ''bg-primary/10 text-primary'' (get_sidebar ''no such page'')"
proof -
  have m: "''Dashboard'' \<in> fst ` set nav_links" "''no such page'' \<notin> fst ` set nav_links"
    "(''Dashboard'', ''dashboard.html'', ''dashboard'') \<in> set nav_links"
    "(''Toolkit'', ''toolkit.html'', ''construction'') \<in> set nav_links"
    by (simp_all add: nav_links_def)
  note d = active_link_count [of "''Dashboard''"]
  note n = active_link_count [of "''no such page''"]
  from d m(1) have "length (active_links ''Dashboard'') = 1" by simp
  moreover from d have
    "\<forall>link\<in>set nav_links. style_pair ''Dashboard'' (fst link) =
       (if fst link = ''Dashboard'' then active_pair else hover_pair)"
    by blast
  from this [THEN bspec, OF m(3)] this [THEN bspec, OF m(4)]
  have "style_pair ''Dashboard'' ''Dashboard'' = active_pair"
    "style_pair ''Dashboard'' ''Toolkit'' = hover_pair"
    by simp_all
  moreover from n m(2) have "length (active_links ''no such page'') = 0" by simp
  moreover from n m(2) have
    "\<not> sublist ''bg-primary/10 text-primary'' (get_sidebar ''no such page'')"
    by blast
  ultimately show ?thesis by simp
qed

text \<open>
  The claim as the specification states it fails at the configured display name
  \<open>Profile\<close>: no link gets the active pair, and the fragment holds no active link style.
\<close>

theorem active_link_count_counterexample:
  "(''profile.html'', ''Profile'') \<in> set files \<and> active_links ''Profile'' = [] \<and>
   length nav_links = 9 \<and>
   \<not> sublist ''bg-primary/10 text-primary'' (get_sidebar ''Profile'')"
proof -
  have "length (active_links ''Profile'') = 0"
    using active_links_count [of "''Profile''"] profile_no_nav_label by simp
  moreover have "(''profile.html'', ''Profile'') \<in> set files" by (simp add: files_def)
  moreover have "length nav_links = 9" by (simp add: nav_links_def)
  ultimately show ?thesis
    using inactive_fragment_no_active [OF profile_no_nav_label] by simp
qed

text \<open>
  C9. \<open>get_sidebar\<close> compares and concatenates strings and does nothing else, so it
  returns a fragment for every string: a text that runs from the opening tag of the
  container to its closing tag. For the empty string, and for every other string that is
  the label of no link, it is one and the same fragment.
\<close>

theorem get_sidebar_total:
  "(\<exists>attrs inner. get_sidebar ap = ''<aside'' @ attrs @ ''>'' @ inner @ ''</aside>'') \<and>
   (ap \<notin> fst ` set nav_links \<longrightarrow> get_sidebar ap = get_sidebar [])"
  using get_sidebar_shape [of ap] inactive_fragment [of ap] by blast

theorem get_sidebar_total_witness:
  "get_sidebar ''Settings '' = get_sidebar [] \<and> get_sidebar ''dashboard'' = get_sidebar []"
proof -
  have "''Settings '' \<notin> fst ` set nav_links" "''dashboard'' \<notin> fst ` set nav_links"
    by (simp_all add: nav_links_def)
  with get_sidebar_total [of "''Settings ''"] get_sidebar_total [of "''dashboard''"]
  show ?thesis by blast
qed

section \<open>The two steps on a text\<close>

lemma aside_pattern_shape:
  "aside_pattern = map Lit ''<aside'' @ AnyLazy # Lit CHR ''>'' # AnyLazy # map Lit ''</aside>''"
  by (simp add: aside_pattern_def)

lemma container_text:
  "before @ ''<aside'' @ attrs @ ''>'' @ inner @ ''</aside>'' @ rest =
   before @ ''<aside'' @ attrs @ CHR ''>'' # inner @ ''</aside>'' @ rest"
  by simp

lemma aside_search_first:
  assumes "\<not> sublist ''<aside'' (before @ ''<asid'')" "CHR ''>'' \<notin> set attrs"
    "\<not> sublist ''</aside>'' (inner @ ''</aside'')"
  shows "re_search aside_pattern
           (before @ ''<aside'' @ attrs @ ''>'' @ inner @ ''</aside>'' @ rest) = Some (before, rest)"
proof -
  have "re_search (map Lit ''<aside'' @ AnyLazy # Lit CHR ''>'' # AnyLazy # map Lit ''</aside>'')
      (before @ ''<aside'' @ attrs @ CHR ''>'' # inner @ ''</aside>'' @ rest) = Some (before, rest)"
    using assms by (intro tag_search_first) simp_all
  then show ?thesis unfolding aside_pattern_shape container_text .
qed

lemma aside_search_None:
  "re_search aside_pattern s = None \<longleftrightarrow>
   \<not> (\<exists>before attrs inner rest.
         s = before @ ''<aside'' @ attrs @ ''>'' @ inner @ ''</aside>'' @ rest)"
proof -
  have "re_search (map Lit ''<aside'' @ AnyLazy # Lit CHR ''>'' # AnyLazy # map Lit ''</aside>'') s = None
      \<longleftrightarrow> \<not> (\<exists>before a u rest. s = before @ ''<aside'' @ a @ CHR ''>'' # u @ ''</aside>'' @ rest)"
    by (rule tag_search_None) simp
  then show ?thesis unfolding aside_pattern_shape container_text .
qed

lemma aside_search_SomeD:
  assumes "re_search aside_pattern s = Some (before, rest)"
  shows "\<exists>attrs inner. s = before @ ''<aside'' @ attrs @ ''>'' @ inner @ ''</aside>'' @ rest \<and>
           \<not> sublist ''<aside'' (before @ ''<asid'') \<and> CHR ''>'' \<notin> set attrs \<and>
           \<not> sublist ''</aside>'' (inner @ ''</aside'')"
proof -
  have "\<exists>a u. s = before @ ''<aside'' @ a @ CHR ''>'' # u @ ''</aside>'' @ rest \<and>
      \<not> sublist ''<aside'' (before @ butlast ''<aside'') \<and> CHR ''>'' \<notin> set a \<and>
      \<not> sublist ''</aside>'' (u @ butlast ''</aside>'')"
    using assms unfolding aside_pattern_shape by (intro tag_search_SomeD) simp_all
  then show ?thesis unfolding container_text by simp
qed

lemma no_opening_before:
  "\<not> sublist ''<aside'' before \<Longrightarrow> \<not> sublist ''<aside'' (before @ ''<asid'')"
  using sublist_append_butlast [of "''<aside''" "''<asid''" before] by simp

lemma no_closing_inside:
  "\<not> sublist ''</aside>'' inner \<Longrightarrow> \<not> sublist ''</aside>'' (inner @ ''</aside'')"
  using sublist_append_butlast [of "''</aside>''" "''</aside''" inner] by simp

lemma update_sidebar_first:
  assumes "\<not> sublist ''<aside'' (before @ ''<asid'')" "CHR ''>'' \<notin> set attrs"
    "\<not> sublist ''</aside>'' (inner @ ''</aside'')"
  shows "update_sidebar filename page_name
           (before @ ''<aside'' @ attrs @ ''>'' @ inner @ ''</aside>'' @ rest) =
         (before @ get_sidebar page_name @ rest, ''Updated sidebar in '' @ filename)"
  using aside_search_first [OF assms, of rest]
  by (simp add: update_sidebar_def re_sub_first_def del: append.simps)

lemma update_sidebar_no_match:
  assumes "\<not> (\<exists>before attrs inner rest.
         content = before @ ''<aside'' @ attrs @ ''>'' @ inner @ ''</aside>'' @ rest)"
  shows "update_sidebar filename page_name content =
         (content, ''Warning: No aside tag found in '' @ filename)"
  using assms aside_search_None [of content] by (simp add: update_sidebar_def)

lemma ensure_icon_link_text:
  "fst (ensure_icon_link filename content) =
     (if sublist ''family=Material+Icons+Round'' content then content else add_icon_link content)"
  by (simp add: ensure_icon_link_def str_in_sublist)

lemma family_in_icon_link: "sublist ''family=Material+Icons+Round'' (icon_link @ s)"
proof -
  have "icon_link @ s = ''<link href=\"https://fonts.googleapis.com/icon?'' @
      ''family=Material+Icons+Round'' @ (''\" rel=\"stylesheet\"/>'' @ s)"
    by (simp add: icon_link_def)
  then show ?thesis by (simp only: sublist_appendI)
qed

lemma add_icon_link_absent: "\<not> sublist ''</head>'' s \<Longrightarrow> add_icon_link s = s"
  by (simp add: add_icon_link_def str_replace_absent)

lemma add_icon_link_present:
  assumes "sublist ''</head>'' s"
  shows "sublist ''family=Material+Icons+Round'' (add_icon_link s)"
proof -
  have "sublist (icon_link @ ''\<newline></head>'') (add_icon_link s)"
    unfolding add_icon_link_def using assms by (intro str_replace_present) simp_all
  moreover have "sublist ''family=Material+Icons+Round'' (icon_link @ ''\<newline></head>'')"
    by (rule family_in_icon_link)
  ultimately show ?thesis using sublist_order.order_trans by blast
qed

lemma add_icon_link_around:
  assumes "m \<noteq> []" "hd m = CHR ''<''" "last m = CHR ''>''"
  shows "add_icon_link (before @ m @ rest) = add_icon_link before @ add_icon_link m @ add_icon_link rest"
proof -
  obtain m' where m: "m = CHR ''<'' # m'" using assms(1,2) by (cases m) auto
  have e: "m = butlast m @ [CHR ''>'']" using assms(1,3) by (metis append_butlast_last_id)
  have "add_icon_link (before @ m @ rest) = add_icon_link before @ add_icon_link (m @ rest)"
    unfolding add_icon_link_def m
    using str_replace_start_delim [of "''</head>''" "CHR ''<''" _ before "m' @ rest"] by simp
  moreover have "add_icon_link (butlast m @ CHR ''>'' # rest) =
      add_icon_link (butlast m @ [CHR ''>'']) @ add_icon_link rest"
    unfolding add_icon_link_def by (rule str_replace_end_delim) simp_all
  then have "add_icon_link (m @ rest) = add_icon_link m @ add_icon_link rest"
    using e by (metis append_Cons append_Nil append_assoc)
  ultimately show ?thesis by simp
qed

lemma word_around:
  assumes "m \<noteq> []" "hd m = CHR ''<''" "last m = CHR ''>''"
    and "w \<in> {''</head>'', ''family=Material+Icons+Round''}"
  shows "sublist w (before @ m @ rest) \<longleftrightarrow> sublist w before \<or> sublist w m \<or> sublist w rest"
  using assms(4) by (intro sublist_delimited) (use assms(1-3) in auto)

lemma word_around_sidebar:
  assumes "w \<in> {''</head>'', ''family=Material+Icons+Round''}"
  shows "sublist w (before @ get_sidebar ap @ rest) \<longleftrightarrow> sublist w before \<or> sublist w rest"
  using word_around [OF get_sidebar_ends [of ap] assms, where before = before and rest = rest]
    get_sidebar_free [OF assms, of ap]
  by simp

lemma add_icon_link_around_sidebar:
  "add_icon_link (before @ get_sidebar ap @ rest) =
   add_icon_link before @ get_sidebar ap @ add_icon_link rest"
  using add_icon_link_around [OF get_sidebar_ends [of ap], where before = before and rest = rest]
    add_icon_link_absent [OF get_sidebar_free [where w = "''</head>''" and ap = ap]]
  by simp

lemma ensure_around_sidebar:
  "fst (ensure_icon_link filename (before @ get_sidebar ap @ rest)) =
     (if sublist ''family=Material+Icons+Round'' before \<or>
         sublist ''family=Material+Icons+Round'' rest
      then before @ get_sidebar ap @ rest
      else add_icon_link before @ get_sidebar ap @ add_icon_link rest)"
  by (simp add: ensure_icon_link_text word_around_sidebar add_icon_link_around_sidebar)

lemma patch_text_first:
  assumes "\<not> sublist ''<aside'' (before @ ''<asid'')" "CHR ''>'' \<notin> set attrs"
    "\<not> sublist ''</aside>'' (inner @ ''</aside'')"
  shows "patch_text filename page_name
           (before @ ''<aside'' @ attrs @ ''>'' @ inner @ ''</aside>'' @ rest) =
         (if sublist ''family=Material+Icons+Round'' before \<or>
             sublist ''family=Material+Icons+Round'' rest
          then before @ get_sidebar page_name @ rest
          else add_icon_link before @ get_sidebar page_name @ add_icon_link rest)"
  unfolding patch_text_def update_sidebar_first [OF assms] fst_conv
  by (rule ensure_around_sidebar)

lemma process_file_document:
  assumes "fs w (path_join design_dir filename) = Some (Document stored)"
  shows "process_file (filename, page_name) w =
     Finished (w\<lparr>fs := (fs w)(path_join design_dir filename \<mapsto>
                        Document (patch_text filename page_name (read_text stored))),
                 trace := trace w @
                   [Read (path_join design_dir filename),
                    Print (snd (update_sidebar filename page_name (read_text stored)))] @
                   map Print (snd (ensure_icon_link filename
                     (fst (update_sidebar filename page_name (read_text stored))))) @
                   [Wrote (path_join design_dir filename)
                      (patch_text filename page_name (read_text stored))]\<rparr>)"
  using assms
  by (simp add: process_file_def patch_text_def emit_def Let_def case_prod_beta)

lemma process_file_missing:
  assumes "fs w (path_join design_dir filename) = None"
  shows "process_file (filename, page_name) w =
     Finished (w\<lparr>trace := trace w @ [Print (''Skipping '' @ filename @ '', does not exist'')]\<rparr>)"
  using assms by (simp add: process_file_def emit_def Let_def)

lemma process_file_unreadable:
  assumes "fs w (path_join design_dir filename) = Some Unreadable"
  shows "process_file (filename, page_name) w =
     Aborted (path_join design_dir filename)
       (w\<lparr>trace := trace w @ [Read (path_join design_dir filename)]\<rparr>)"
  using assms by (simp add: process_file_def emit_def Let_def)

section \<open>Replacing the container\<close>

lemma profile_lines_in_template:
  "\<exists>ls. get_sidebar ap = concat ls @ ''</aside>'' \<and> sublist profile_lines ls"
  unfolding get_sidebar_def
  apply (intro exI conjI)
   apply (rule refl)
  apply (simp add: profile_lines_def sublist_code)
  done

lemma profile_lines_in_sidebar: "sublist (concat profile_lines) (get_sidebar ap)"
proof -
  from profile_lines_in_template [of ap] obtain ls where
    "get_sidebar ap = concat ls @ ''</aside>''" "sublist profile_lines ls"
    by blast
  then show ?thesis by (simp only: sublist_concat)
qed

lemma design_path:
  "\<not> prefix ''/'' filename \<Longrightarrow> path_join design_dir filename = ''.designs/'' @ filename"
  by (simp add: path_join_def design_dir_def suffix_to_prefix)

text \<open>
  C1. Take one of the eight configured pairs and a document whose text, as it is read, has
  the container \<open><aside\<close> attributes \<open>>\<close> inner text \<open></aside>\<close>, with no \<open><aside\<close> before
  it, no \<open>>\<close> among the attributes and no \<open></aside>\<close> in the inner text. The patcher
  finishes, and the document it leaves has exactly the fragment of \<open>get_sidebar\<close> for the
  display name in the place of the container; the text before and after the container is
  as it was, but for the icon link the second step puts before the head markers there when
  no part of the text names the icon family. The fragment holds the footer lines with the
  name \<open>Sarah Chen\<close> and the role \<open>Senior OT\<close>.
\<close>

theorem container_replaced:
  assumes "(filename, page_name) \<in> set files"
    and "fs w (path_join design_dir filename) = Some (Document stored)"
    and "read_text stored = before @ ''<aside'' @ attrs @ ''>'' @ inner @ ''</aside>'' @ rest"
    and "\<not> sublist ''<aside'' before" "CHR ''>'' \<notin> set attrs" "\<not> sublist ''</aside>'' inner"
  shows "\<exists>w'. process_file (filename, page_name) w = Finished w' \<and>
     fs w' (path_join design_dir filename) =
       Some (Document
         (if sublist ''family=Material+Icons+Round'' before \<or>
             sublist ''family=Material+Icons+Round'' rest
          then before @ get_sidebar page_name @ rest
          else add_icon_link before @ get_sidebar page_name @ add_icon_link rest)) \<and>
     sublist (concat profile_lines) (get_sidebar page_name)"
proof -
  have "patch_text filename page_name
      (before @ ''<aside'' @ attrs @ ''>'' @ inner @ ''</aside>'' @ rest) =
    (if sublist ''family=Material+Icons+Round'' before \<or>
        sublist ''family=Material+Icons+Round'' rest
     then before @ get_sidebar page_name @ rest
     else add_icon_link before @ get_sidebar page_name @ add_icon_link rest)"
    using assms(4-6) by (intro patch_text_first no_opening_before no_closing_inside)
  then show ?thesis
    unfolding process_file_document [OF assms(2)] assms(3)
    using profile_lines_in_sidebar [of page_name] by simp
qed

theorem container_replaced_witness:
  \<open>\<exists>w'. process_file (''dashboard.html'', ''Dashboard'')
       \<lparr>fs = [''.designs/dashboard.html'' \<mapsto> Document ''<aside class="old">OLD CONTENT</aside>''],
        trace = []\<rparr> = Finished w' \<and>
     fs w' ''.designs/dashboard.html'' = Some (Document (get_sidebar ''Dashboard'')) \<and>
     sublist (concat profile_lines) (get_sidebar ''Dashboard'')\<close>
proof -
  let ?w = \<open>\<lparr>fs = [''.designs/dashboard.html'' \<mapsto> Document ''<aside class="old">OLD CONTENT</aside>''],
        trace = []\<rparr>\<close>
  have p: "path_join design_dir ''dashboard.html'' = ''.designs/dashboard.html''"
    by (simp add: design_path)
  have 1: "(''dashboard.html'', ''Dashboard'') \<in> set files" by (simp add: files_def)
  have 2: \<open>fs ?w (path_join design_dir ''dashboard.html'') =
      Some (Document ''<aside class="old">OLD CONTENT</aside>'')\<close>
    unfolding p by simp
  have r: \<open>read_text ''<aside class="old">OLD CONTENT</aside>'' =
      [] @ ''<aside'' @ '' class="old"'' @ ''>'' @ ''OLD CONTENT'' @ ''</aside>'' @ []\<close>
    by (simp add: read_text_def)
  have 3: "\<not> sublist ''<aside'' []" by simp
  have 4: \<open>CHR ''>'' \<notin> set '' class="old"''\<close> by simp
  have 5: "\<not> sublist ''</aside>'' ''OLD CONTENT''" by (simp add: sublist_code)
  from container_replaced [OF 1 2 r 3 4 5] show ?thesis
    unfolding p by (simp add: add_icon_link_absent)
qed

text \<open>
  C6. Let the text of a document have a first \<open><aside\<close>, attributes without \<open>>\<close>, then a
  text without \<open></aside>\<close> up to a first \<open></aside>\<close>, then the remainder of the outer
  container with its own \<open></aside>\<close>: the first closing tag closes a nested container. The
  match ends at that first closing tag, so the first step puts the fragment over the text
  from the first opening tag to it, and the remainder of the outer container stays in the
  text.
\<close>

theorem nested_container_truncated:
  assumes "\<not> sublist ''<aside'' before" "CHR ''>'' \<notin> set attrs" "\<not> sublist ''</aside>'' inner"
  shows "re_search aside_pattern
           (before @ ''<aside'' @ attrs @ ''>'' @ inner @ ''</aside>'' @ remainder @ ''</aside>'' @ rest) =
           Some (before, remainder @ ''</aside>'' @ rest) \<and>
         fst (update_sidebar filename page_name
           (before @ ''<aside'' @ attrs @ ''>'' @ inner @ ''</aside>'' @ remainder @ ''</aside>'' @ rest)) =
           before @ get_sidebar page_name @ remainder @ ''</aside>'' @ rest"
  using aside_search_first [OF no_opening_before [OF assms(1)] assms(2)
      no_closing_inside [OF assms(3)]]
    update_sidebar_first [OF no_opening_before [OF assms(1)] assms(2)
      no_closing_inside [OF assms(3)]]
  by simp

theorem nested_container_truncated_witness:
  \<open>re_search aside_pattern ''<aside class="a">A<aside class="b">B</aside>C</aside>D'' =
     Some ([], ''C</aside>D'') \<and>
   fst (update_sidebar ''ai.html'' ''AI Assistant''
          ''<aside class="a">A<aside class="b">B</aside>C</aside>D'') =
     get_sidebar ''AI Assistant'' @ ''C</aside>D''\<close>
proof -
  have 1: "\<not> sublist ''<aside'' []" by simp
  have 2: \<open>CHR ''>'' \<notin> set '' class="a"''\<close> by simp
  have 3: \<open>\<not> sublist ''</aside>'' ''A<aside class="b">B''\<close> by (simp add: sublist_code)
  from nested_container_truncated [OF 1 2 3, of "''C''" "''D''" "''ai.html''" "''AI Assistant''"]
  show ?thesis by simp
qed

lemma str_replace_segments:
  assumes "old \<noteq> []" "last old \<notin> set (butlast old)"
    and "\<forall>s\<in>set segs. \<not> sublist old s" "\<not> sublist old t"
  shows "str_replace old new (concat (map (\<lambda>s. s @ old) segs) @ t) =
         concat (map (\<lambda>s. s @ new) segs) @ t"
  using assms(3)
proof (induction segs)
  case Nil
  show ?case using assms(4) by (simp add: str_replace_absent)
next
  case (Cons s segs)
  then have "\<not> sublist old s" by simp
  then have "\<not> sublist old (s @ butlast old)"
    using sublist_append_butlast [OF assms(1,2)] by blast
  then have "str_replace old new (s @ old @ (concat (map (\<lambda>s. s @ old) segs) @ t)) =
      s @ new @ str_replace old new (concat (map (\<lambda>s. s @ old) segs) @ t)"
    by (rule str_replace_first [OF assms(1)])
  with Cons show ?case by simp
qed

text \<open>
  C10. When the text does not name the icon family and is any number of segments without
  \<open></head>\<close>, each followed by \<open></head>\<close>, and a last segment without it, the second step
  puts the link and a line break before every one of the head markers.
\<close>

theorem all_head_markers:
  assumes "\<not> sublist ''family=Material+Icons+Round'' content"
    and "content = concat (map (\<lambda>s. s @ ''</head>'') segs) @ t"
    and "\<forall>s\<in>set segs. \<not> sublist ''</head>'' s" "\<not> sublist ''</head>'' t"
  shows "fst (ensure_icon_link filename content) =
         concat (map (\<lambda>s. s @ icon_link @ ''\<newline></head>'') segs) @ t"
proof -
  have "str_replace ''</head>'' (icon_link @ ''\<newline></head>'')
          (concat (map (\<lambda>s. s @ ''</head>'') segs) @ t) =
        concat (map (\<lambda>s. s @ (icon_link @ ''\<newline></head>'')) segs) @ t"
  proof (rule str_replace_segments)
    show "''</head>'' \<noteq> []" by simp
    show "last ''</head>'' \<notin> set (butlast ''</head>'')" by simp
  qed (use assms(3,4) in blast)+
  then have "add_icon_link content =
        concat (map (\<lambda>s. s @ icon_link @ ''\<newline></head>'') segs) @ t"
    unfolding assms(2) add_icon_link_def by simp
  then show ?thesis using assms(1) by (simp only: ensure_icon_link_text if_False)
qed

theorem all_head_markers_witness:
  "fst (ensure_icon_link ''ai.html'' ''<head>A</head><head>B</head>C'') =
     ''<head>A'' @ icon_link @ ''\<newline></head><head>B'' @ icon_link @ ''\<newline></head>C''"
proof -
  have 1: "\<not> sublist ''family=Material+Icons+Round'' ''<head>A</head><head>B</head>C''"
    by (simp add: sublist_code)
  have 2: "''<head>A</head><head>B</head>C'' =
      concat (map (\<lambda>s. s @ ''</head>'') [''<head>A'', ''<head>B'']) @ ''C''"
    by simp
  have 3: "\<forall>s\<in>set [''<head>A'', ''<head>B'']. \<not> sublist ''</head>'' s"
    by (simp add: sublist_code)
  have 4: "\<not> sublist ''</head>'' ''C''" by (simp add: sublist_code)
  from all_head_markers [OF 1 2 3 4, of "''ai.html''"] show ?thesis by simp
qed

section \<open>The second step, and what is written back\<close>

lemma update_sidebar_cases:
  "(\<not> (\<exists>before attrs inner rest.
        content = before @ ''<aside'' @ attrs @ ''>'' @ inner @ ''</aside>'' @ rest) \<and>
    update_sidebar filename page_name content =
      (content, ''Warning: No aside tag found in '' @ filename)) \<or>
   (\<exists>before attrs inner rest.
      content = before @ ''<aside'' @ attrs @ ''>'' @ inner @ ''</aside>'' @ rest \<and>
      \<not> sublist ''<aside'' (before @ ''<asid'') \<and> CHR ''>'' \<notin> set attrs \<and>
      \<not> sublist ''</aside>'' (inner @ ''</aside'') \<and>
      update_sidebar filename page_name content =
        (before @ get_sidebar page_name @ rest, ''Updated sidebar in '' @ filename))"
proof (cases "re_search aside_pattern content")
  case None
  then have "\<not> (\<exists>before attrs inner rest.
        content = before @ ''<aside'' @ attrs @ ''>'' @ inner @ ''</aside>'' @ rest)"
    unfolding aside_search_None .
  then have "update_sidebar filename page_name content =
      (content, ''Warning: No aside tag found in '' @ filename)"
    by (rule update_sidebar_no_match)
  with \<open>\<not> (\<exists>before attrs inner rest.
        content = before @ ''<aside'' @ attrs @ ''>'' @ inner @ ''</aside>'' @ rest)\<close>
  show ?thesis by (intro disjI1 conjI)
next
  case (Some r)
  obtain before rest where r: "r = (before, rest)" by (cases r)
  from aside_search_SomeD [OF Some [unfolded r]] obtain attrs inner where
    c: "content = before @ ''<aside'' @ attrs @ ''>'' @ inner @ ''</aside>'' @ rest"
    and f: "\<not> sublist ''<aside'' (before @ ''<asid'')" "CHR ''>'' \<notin> set attrs"
      "\<not> sublist ''</aside>'' (inner @ ''</aside'')"
    by blast
  have u: "update_sidebar filename page_name content =
      (before @ get_sidebar page_name @ rest, ''Updated sidebar in '' @ filename)"
    unfolding c by (rule update_sidebar_first [OF f])
  show ?thesis
    apply (rule disjI2)
    apply (rule exI [of _ before], rule exI [of _ attrs], rule exI [of _ inner],
        rule exI [of _ rest])
    apply (intro conjI)
        apply (fact c)
       apply (fact f(1))
      apply (fact f(2))
     apply (fact f(3))
    apply (fact u)
    done
qed

lemma update_sidebar_keeps_absent:
  assumes "w \<in> {''</head>'', ''family=Material+Icons+Round''}" "\<not> sublist w content"
  shows "\<not> sublist w (fst (update_sidebar filename page_name content))"
proof -
  from update_sidebar_cases [of content filename page_name] show ?thesis
  proof (elim disjE conjE exE)
    assume "update_sidebar filename page_name content =
        (content, ''Warning: No aside tag found in '' @ filename)"
    with assms(2) show ?thesis by simp
  next
    fix before attrs inner rest
    assume c: "content = before @ ''<aside'' @ attrs @ ''>'' @ inner @ ''</aside>'' @ rest"
      and u: "update_sidebar filename page_name content =
        (before @ get_sidebar page_name @ rest, ''Updated sidebar in '' @ filename)"
    have "prefix before content" unfolding c by simp
    moreover have "suffix rest content"
      unfolding c
      by (rule suffixI [of _ "before @ ''<aside'' @ attrs @ ''>'' @ inner @ ''</aside>''"]) simp
    ultimately have "sublist before content" "sublist rest content" by simp_all
    with assms(2) have "\<not> sublist w before" "\<not> sublist w rest"
      using sublist_order.order_trans by blast+
    then show ?thesis unfolding u fst_conv word_around_sidebar [OF assms(1)] by simp
  qed
qed

text \<open>
  C7. The second step leaves a text that names the icon family as it is. In a text that
  does not name it, the step puts the link and a line break before the first head marker
  (and goes on behind it); so, where there is a head marker, the step changes the text if
  and only if the text does not name the icon family. A text without a head marker comes
  back unchanged whether it names the family or not, and what the patcher writes for it is
  what the first step made of it.
\<close>

theorem stylesheet_assurance:
  "(sublist ''family=Material+Icons+Round'' content \<longrightarrow>
      fst (ensure_icon_link filename content) = content) \<and>
   (\<not> sublist ''family=Material+Icons+Round'' content \<longrightarrow>
      content = before @ ''</head>'' @ rest \<longrightarrow> \<not> sublist ''</head>'' before \<longrightarrow>
      fst (ensure_icon_link filename content) =
        before @ icon_link @ ''\<newline></head>'' @ add_icon_link rest) \<and>
   (sublist ''</head>'' content \<longrightarrow>
      (fst (ensure_icon_link filename content) \<noteq> content \<longleftrightarrow>
       \<not> sublist ''family=Material+Icons+Round'' content)) \<and>
   (\<not> sublist ''</head>'' content \<longrightarrow>
      fst (ensure_icon_link filename content) = content \<and>
      patch_text filename page_name content = fst (update_sidebar filename page_name content))"
proof (intro conjI impI)
  show "fst (ensure_icon_link filename content) = content"
    if "sublist ''family=Material+Icons+Round'' content"
    using that by (simp add: ensure_icon_link_text)
next
  assume nf: "\<not> sublist ''family=Material+Icons+Round'' content"
    and c: "content = before @ ''</head>'' @ rest" and nh: "\<not> sublist ''</head>'' before"
  have "\<not> sublist ''</head>'' (before @ butlast ''</head>'')"
    using nh sublist_append_butlast [of "''</head>''" "''</head''" before] by simp
  then have "str_replace ''</head>'' (icon_link @ ''\<newline></head>'') (before @ ''</head>'' @ rest) =
      before @ (icon_link @ ''\<newline></head>'') @
      str_replace ''</head>'' (icon_link @ ''\<newline></head>'') rest"
    by (intro str_replace_first) simp_all
  then have "add_icon_link content = before @ icon_link @ ''\<newline></head>'' @ add_icon_link rest"
    unfolding add_icon_link_def c by simp
  with nf show "fst (ensure_icon_link filename content) =
      before @ icon_link @ ''\<newline></head>'' @ add_icon_link rest"
    by (simp only: ensure_icon_link_text if_False)
next
  assume h: "sublist ''</head>'' content"
  show "fst (ensure_icon_link filename content) \<noteq> content \<longleftrightarrow>
      \<not> sublist ''family=Material+Icons+Round'' content"
  proof (cases "sublist ''family=Material+Icons+Round'' content")
    case True
    then show ?thesis by (simp add: ensure_icon_link_text)
  next
    case False
    from add_icon_link_present [OF h] False have "add_icon_link content \<noteq> content" by auto
    with False show ?thesis by (simp add: ensure_icon_link_text)
  qed
next
  assume nh: "\<not> sublist ''</head>'' content"
  then show "fst (ensure_icon_link filename content) = content"
    by (simp add: ensure_icon_link_text add_icon_link_absent)
  have "\<not> sublist ''</head>'' (fst (update_sidebar filename page_name content))"
    using nh by (intro update_sidebar_keeps_absent) simp_all
  then show "patch_text filename page_name content =
      fst (update_sidebar filename page_name content)"
    by (simp add: patch_text_def ensure_icon_link_text add_icon_link_absent)
qed

theorem stylesheet_assurance_witness:
  \<open>fst (ensure_icon_link ''ai.html'' ''<head><link href="x?family=Material+Icons+Round"/></head>'') =
     ''<head><link href="x?family=Material+Icons+Round"/></head>'' \<and>
   fst (ensure_icon_link ''ai.html'' ''<head></head><body/>'') =
     ''<head>'' @ icon_link @ ''\<newline></head><body/>'' \<and>
   fst (ensure_icon_link ''ai.html'' ''<head></head><body/>'') \<noteq> ''<head></head><body/>'' \<and>
   fst (ensure_icon_link ''ai.html'' ''<body/>'') = ''<body/>'' \<and>
   patch_text ''ai.html'' ''AI Assistant'' ''<body/>'' =
     fst (update_sidebar ''ai.html'' ''AI Assistant'' ''<body/>'')\<close>
proof -
  have 1: \<open>sublist ''family=Material+Icons+Round''
      ''<head><link href="x?family=Material+Icons+Round"/></head>''\<close>
    by (simp add: sublist_code)
  have 2: "\<not> sublist ''family=Material+Icons+Round'' ''<head></head><body/>''"
    by (simp add: sublist_code)
  have 3: "''<head></head><body/>'' = ''<head>'' @ ''</head>'' @ ''<body/>''" by simp
  have 4: "\<not> sublist ''</head>'' ''<head>''" by (simp add: sublist_code)
  have 5: "sublist ''</head>'' ''<head></head><body/>''" by (simp add: sublist_code)
  have 6: "\<not> sublist ''</head>'' ''<body/>''" by (simp add: sublist_code)
  note a = stylesheet_assurance [of \<open>''<head><link href="x?family=Material+Icons+Round"/></head>''\<close>
      "''ai.html''" "[]" "[]" "''AI Assistant''"]
  note b = stylesheet_assurance [of "''<head></head><body/>''" "''ai.html''" "''<head>''"
      "''<body/>''" "''AI Assistant''"]
  note c = stylesheet_assurance [of "''<body/>''" "''ai.html''" "[]" "[]" "''AI Assistant''"]
  note a1 = a [THEN conjunct1, rule_format, OF 1]
  note b2 = b [THEN conjunct2, THEN conjunct1, rule_format, OF 2 3 4]
  note b3 = b [THEN conjunct2, THEN conjunct2, THEN conjunct1, rule_format, OF 5]
  note c4 = c [THEN conjunct2, THEN conjunct2, THEN conjunct2, rule_format, OF 6]
  from b3 2 have
    b3': "fst (ensure_icon_link ''ai.html'' ''<head></head><body/>'') \<noteq> ''<head></head><body/>''"
    by (simp only: simp_thms)
  have b2': "fst (ensure_icon_link ''ai.html'' ''<head></head><body/>'') =
      ''<head>'' @ icon_link @ ''\<newline></head><body/>''"
    unfolding b2 add_icon_link_absent [OF 6] by simp
  show ?thesis
    apply (intro conjI)
        apply (rule a1)
       apply (rule b2')
      apply (rule b3')
     apply (rule c4 [THEN conjunct1])
    apply (rule c4 [THEN conjunct2])
    done
qed

text \<open>
  C4. A document that exists is read, patched and written back to its own path, once,
  whatever the two steps found: the run of the loop body adds to the trace the read, the
  line of the first step, the lines of the second and one write, of the patched text
  (\<open>content\<close> is the text as it is read). The
  first step either finds the first match of the pattern (no \<open><aside\<close> starts before it,
  its attributes hold no \<open>>\<close>, and it ends at the first \<open></aside>\<close> behind them), puts the
  fragment in its place and reports the update; or the text has no match at all, and the
  step leaves it as it is and prints the warning. A text with no match that names the icon
  family or has no head marker is written back as it was read.
\<close>

theorem existing_document_rewritten:
  assumes "fs w (path_join design_dir filename) = Some (Document stored)"
    and "read_text stored = content"
  shows "\<exists>line lines.
     process_file (filename, page_name) w =
       Finished (w\<lparr>fs := (fs w)(path_join design_dir filename \<mapsto>
                          Document (patch_text filename page_name content)),
                   trace := trace w @
                     [Read (path_join design_dir filename), Print line] @ map Print lines @
                     [Wrote (path_join design_dir filename)
                        (patch_text filename page_name content)]\<rparr>) \<and>
     ((\<exists>before attrs inner rest.
         content = before @ ''<aside'' @ attrs @ ''>'' @ inner @ ''</aside>'' @ rest \<and>
         \<not> sublist ''<aside'' (before @ ''<asid'') \<and> CHR ''>'' \<notin> set attrs \<and>
         \<not> sublist ''</aside>'' (inner @ ''</aside'') \<and>
         fst (update_sidebar filename page_name content) = before @ get_sidebar page_name @ rest \<and>
         line = ''Updated sidebar in '' @ filename) \<or>
      (\<not> (\<exists>before attrs inner rest.
            content = before @ ''<aside'' @ attrs @ ''>'' @ inner @ ''</aside>'' @ rest) \<and>
       fst (update_sidebar filename page_name content) = content \<and>
       line = ''Warning: No aside tag found in '' @ filename \<and>
       (sublist ''family=Material+Icons+Round'' content \<or> \<not> sublist ''</head>'' content \<longrightarrow>
          patch_text filename page_name content = content)))"
proof -
  let ?line = "snd (update_sidebar filename page_name content)"
  let ?lines = "snd (ensure_icon_link filename (fst (update_sidebar filename page_name content)))"
  have "(\<exists>before attrs inner rest.
         content = before @ ''<aside'' @ attrs @ ''>'' @ inner @ ''</aside>'' @ rest \<and>
         \<not> sublist ''<aside'' (before @ ''<asid'') \<and> CHR ''>'' \<notin> set attrs \<and>
         \<not> sublist ''</aside>'' (inner @ ''</aside'') \<and>
         fst (update_sidebar filename page_name content) = before @ get_sidebar page_name @ rest \<and>
         ?line = ''Updated sidebar in '' @ filename) \<or>
      (\<not> (\<exists>before attrs inner rest.
            content = before @ ''<aside'' @ attrs @ ''>'' @ inner @ ''</aside>'' @ rest) \<and>
       fst (update_sidebar filename page_name content) = content \<and>
       ?line = ''Warning: No aside tag found in '' @ filename \<and>
       (sublist ''family=Material+Icons+Round'' content \<or> \<not> sublist ''</head>'' content \<longrightarrow>
          patch_text filename page_name content = content))"
    using update_sidebar_cases [of content filename page_name]
  proof (elim disjE conjE exE)
    assume n: "\<not> (\<exists>before attrs inner rest.
        content = before @ ''<aside'' @ attrs @ ''>'' @ inner @ ''</aside>'' @ rest)"
      and u: "update_sidebar filename page_name content =
        (content, ''Warning: No aside tag found in '' @ filename)"
    have "patch_text filename page_name content = content"
      if "sublist ''family=Material+Icons+Round'' content \<or> \<not> sublist ''</head>'' content"
      using that unfolding patch_text_def u fst_conv
      by (auto simp add: ensure_icon_link_text add_icon_link_absent)
    with n u show ?thesis by simp
  next
    fix before attrs inner rest
    assume c: "content = before @ ''<aside'' @ attrs @ ''>'' @ inner @ ''</aside>'' @ rest"
      and f: "\<not> sublist ''<aside'' (before @ ''<asid'')" "CHR ''>'' \<notin> set attrs"
        "\<not> sublist ''</aside>'' (inner @ ''</aside'')"
      and u: "update_sidebar filename page_name content =
        (before @ get_sidebar page_name @ rest, ''Updated sidebar in '' @ filename)"
    show ?thesis
      apply (rule disjI1)
      apply (rule exI [of _ before], rule exI [of _ attrs], rule exI [of _ inner],
          rule exI [of _ rest])
      apply (intro conjI)
           apply (fact c)
          apply (fact f(1))
         apply (fact f(2))
        apply (fact f(3))
       apply (simp only: u fst_conv)
      apply (simp only: u snd_conv)
      done
  qed
  with process_file_document [OF assms(1), of page_name] show ?thesis
    unfolding assms(2) by (intro exI [of _ ?line] exI [of _ ?lines] conjI)
qed

theorem existing_document_rewritten_witness:
  "(\<exists>lines. process_file (''general.html'', ''General'')
        \<lparr>fs = [''.designs/general.html'' \<mapsto> Document ''<p>no sidebar</p>''], trace = []\<rparr> =
      Finished
        \<lparr>fs = [''.designs/general.html'' \<mapsto> Document ''<p>no sidebar</p>''],
         trace = [Read ''.designs/general.html'',
                  Print ''Warning: No aside tag found in general.html''] @ map Print lines @
                 [Wrote ''.designs/general.html'' ''<p>no sidebar</p>'']\<rparr>) \<and>
   (\<exists>lines. process_file (''toolkit.html'', ''Toolkit'')
        \<lparr>fs = [''.designs/toolkit.html'' \<mapsto> Document ''<aside>old</aside>''], trace = []\<rparr> =
      Finished
        \<lparr>fs = [''.designs/toolkit.html'' \<mapsto>
                  Document (patch_text ''toolkit.html'' ''Toolkit'' ''<aside>old</aside>'')],
         trace = [Read ''.designs/toolkit.html'',
                  Print ''Updated sidebar in toolkit.html''] @ map Print lines @
                 [Wrote ''.designs/toolkit.html''
                    (patch_text ''toolkit.html'' ''Toolkit'' ''<aside>old</aside>'')]\<rparr>)"
proof (rule conjI)
  let ?w = "\<lparr>fs = [''.designs/general.html'' \<mapsto> Document ''<p>no sidebar</p>''], trace = []\<rparr>"
  have p: "path_join design_dir ''general.html'' = ''.designs/general.html''"
    by (simp add: design_path)
  have f: "fs ?w (path_join design_dir ''general.html'') = Some (Document ''<p>no sidebar</p>'')"
    unfolding p by simp
  have "re_search aside_pattern ''<p>no sidebar</p>'' = None"
    by (simp add: aside_pattern_def)
  then have n: "\<not> (\<exists>before attrs inner rest.
      ''<p>no sidebar</p>'' = before @ ''<aside'' @ attrs @ ''>'' @ inner @ ''</aside>'' @ rest)"
    unfolding aside_search_None .
  have h: "\<not> sublist ''</head>'' ''<p>no sidebar</p>''" by (simp add: sublist_code)
  have rt: "read_text ''<p>no sidebar</p>'' = ''<p>no sidebar</p>''"
    by (simp add: read_text_def)
  from existing_document_rewritten [OF f rt, of "''General''"] obtain line lines where
    r: "process_file (''general.html'', ''General'') ?w =
       Finished (?w\<lparr>fs := (fs ?w)(path_join design_dir ''general.html'' \<mapsto>
                          Document (patch_text ''general.html'' ''General'' ''<p>no sidebar</p>'')),
                   trace := trace ?w @
                     [Read (path_join design_dir ''general.html''), Print line] @ map Print lines @
                     [Wrote (path_join design_dir ''general.html'')
                        (patch_text ''general.html'' ''General'' ''<p>no sidebar</p>'')]\<rparr>)"
    and d: "(\<exists>before attrs inner rest.
         ''<p>no sidebar</p>'' = before @ ''<aside'' @ attrs @ ''>'' @ inner @ ''</aside>'' @ rest \<and>
         \<not> sublist ''<aside'' (before @ ''<asid'') \<and> CHR ''>'' \<notin> set attrs \<and>
         \<not> sublist ''</aside>'' (inner @ ''</aside'') \<and>
         fst (update_sidebar ''general.html'' ''General'' ''<p>no sidebar</p>'') =
           before @ get_sidebar ''General'' @ rest \<and>
         line = ''Updated sidebar in '' @ ''general.html'') \<or>
      (\<not> (\<exists>before attrs inner rest.
            ''<p>no sidebar</p>'' = before @ ''<aside'' @ attrs @ ''>'' @ inner @ ''</aside>'' @ rest) \<and>
       fst (update_sidebar ''general.html'' ''General'' ''<p>no sidebar</p>'') = ''<p>no sidebar</p>'' \<and>
       line = ''Warning: No aside tag found in '' @ ''general.html'' \<and>
       (sublist ''family=Material+Icons+Round'' ''<p>no sidebar</p>'' \<or>
        \<not> sublist ''</head>'' ''<p>no sidebar</p>'' \<longrightarrow>
          patch_text ''general.html'' ''General'' ''<p>no sidebar</p>'' = ''<p>no sidebar</p>''))"
    by (elim exE conjE)
  from d n have l: "line = ''Warning: No aside tag found in '' @ ''general.html''"
    by blast
  from d n h have
    t: "patch_text ''general.html'' ''General'' ''<p>no sidebar</p>'' = ''<p>no sidebar</p>''"
    by blast
  show "\<exists>lines. process_file (''general.html'', ''General'') ?w =
      Finished
        \<lparr>fs = [''.designs/general.html'' \<mapsto> Document ''<p>no sidebar</p>''],
         trace = [Read ''.designs/general.html'',
                  Print ''Warning: No aside tag found in general.html''] @ map Print lines @
                 [Wrote ''.designs/general.html'' ''<p>no sidebar</p>'']\<rparr>"
    unfolding r l t p by (intro exI [of _ lines]) simp
next
  let ?w = "\<lparr>fs = [''.designs/toolkit.html'' \<mapsto> Document ''<aside>old</aside>''], trace = []\<rparr>"
  have p: "path_join design_dir ''toolkit.html'' = ''.designs/toolkit.html''"
    by (simp add: design_path)
  have f: "fs ?w (path_join design_dir ''toolkit.html'') = Some (Document ''<aside>old</aside>'')"
    unfolding p by simp
  have e: "''<aside>old</aside>'' = [] @ ''<aside'' @ [] @ ''>'' @ ''old'' @ ''</aside>'' @ []"
    by simp
  have y: "\<exists>before attrs inner rest.
      ''<aside>old</aside>'' = before @ ''<aside'' @ attrs @ ''>'' @ inner @ ''</aside>'' @ rest"
    by (rule exI [of _ "[]"], rule exI [of _ "[]"], rule exI [of _ "''old''"],
      rule exI [of _ "[]"], rule e)
  have rt: "read_text ''<aside>old</aside>'' = ''<aside>old</aside>''"
    by (simp add: read_text_def)
  from existing_document_rewritten [OF f rt, of "''Toolkit''"] obtain line lines where
    r: "process_file (''toolkit.html'', ''Toolkit'') ?w =
       Finished (?w\<lparr>fs := (fs ?w)(path_join design_dir ''toolkit.html'' \<mapsto>
                          Document (patch_text ''toolkit.html'' ''Toolkit'' ''<aside>old</aside>'')),
                   trace := trace ?w @
                     [Read (path_join design_dir ''toolkit.html''), Print line] @ map Print lines @
                     [Wrote (path_join design_dir ''toolkit.html'')
                        (patch_text ''toolkit.html'' ''Toolkit'' ''<aside>old</aside>'')]\<rparr>)"
    and d: "(\<exists>before attrs inner rest.
         ''<aside>old</aside>'' = before @ ''<aside'' @ attrs @ ''>'' @ inner @ ''</aside>'' @ rest \<and>
         \<not> sublist ''<aside'' (before @ ''<asid'') \<and> CHR ''>'' \<notin> set attrs \<and>
         \<not> sublist ''</aside>'' (inner @ ''</aside'') \<and>
         fst (update_sidebar ''toolkit.html'' ''Toolkit'' ''<aside>old</aside>'') =
           before @ get_sidebar ''Toolkit'' @ rest \<and>
         line = ''Updated sidebar in '' @ ''toolkit.html'') \<or>
      (\<not> (\<exists>before attrs inner rest.
            ''<aside>old</aside>'' = before @ ''<aside'' @ attrs @ ''>'' @ inner @ ''</aside>'' @ rest) \<and>
       fst (update_sidebar ''toolkit.html'' ''Toolkit'' ''<aside>old</aside>'') = ''<aside>old</aside>'' \<and>
       line = ''Warning: No aside tag found in '' @ ''toolkit.html'' \<and>
       (sublist ''family=Material+Icons+Round'' ''<aside>old</aside>'' \<or>
        \<not> sublist ''</head>'' ''<aside>old</aside>'' \<longrightarrow>
          patch_text ''toolkit.html'' ''Toolkit'' ''<aside>old</aside>'' = ''<aside>old</aside>''))"
    by (elim exE conjE)
  from d y have l: "line = ''Updated sidebar in '' @ ''toolkit.html''"
    by blast
  show "\<exists>lines. process_file (''toolkit.html'', ''Toolkit'') ?w =
      Finished
        \<lparr>fs = [''.designs/toolkit.html'' \<mapsto>
                  Document (patch_text ''toolkit.html'' ''Toolkit'' ''<aside>old</aside>'')],
         trace = [Read ''.designs/toolkit.html'',
                  Print ''Updated sidebar in toolkit.html''] @ map Print lines @
                 [Wrote ''.designs/toolkit.html''
                    (patch_text ''toolkit.html'' ''Toolkit'' ''<aside>old</aside>'')]\<rparr>"
    unfolding r l p by (intro exI [of _ lines]) simp
qed

section \<open>The run over the configured files\<close>

lemma process_file_touches:
  "\<exists>new. trace (final_world (process_file entry w)) = trace w @ new \<and>
     (\<forall>ev\<in>set new. \<forall>p. touches ev p \<longrightarrow> p \<in> dom (fs w)) \<and>
     dom (fs (final_world (process_file entry w))) = dom (fs w)"
proof -
  obtain filename page_name where e: "entry = (filename, page_name)" by (cases entry)
  show ?thesis
  proof (cases "fs w (path_join design_dir filename)")
    case None
    show ?thesis unfolding e process_file_missing [OF None] by simp
  next
    case (Some n)
    show ?thesis
    proof (cases n)
      case (Document content)
      with Some have d: "fs w (path_join design_dir filename) = Some (Document content)" by simp
      show ?thesis unfolding e process_file_document [OF d] using d by auto
    next
      case Unreadable
      with Some have u: "fs w (path_join design_dir filename) = Some Unreadable" by simp
      show ?thesis unfolding e process_file_unreadable [OF u] using u by auto
    qed
  qed
qed

lemma run_files_touches:
  "\<exists>new. trace (final_world (run_files entries w)) = trace w @ new \<and>
     (\<forall>ev\<in>set new. \<forall>p. touches ev p \<longrightarrow> p \<in> dom (fs w)) \<and>
     dom (fs (final_world (run_files entries w))) = dom (fs w)"
proof (induction entries arbitrary: w)
  case Nil
  show ?case by simp
next
  case (Cons entry entries)
  from process_file_touches [of entry w] obtain new1 where
    1: "trace (final_world (process_file entry w)) = trace w @ new1"
    "\<forall>ev\<in>set new1. \<forall>p. touches ev p \<longrightarrow> p \<in> dom (fs w)"
    "dom (fs (final_world (process_file entry w))) = dom (fs w)"
    by blast
  show ?case
  proof (cases "process_file entry w")
    case (Finished w1)
    from Cons.IH [of w1] obtain new2 where
      2: "trace (final_world (run_files entries w1)) = trace w1 @ new2"
      "\<forall>ev\<in>set new2. \<forall>p. touches ev p \<longrightarrow> p \<in> dom (fs w1)"
      "dom (fs (final_world (run_files entries w1))) = dom (fs w1)"
      by blast
    from 1 Finished have w1: "trace w1 = trace w @ new1" "dom (fs w1) = dom (fs w)" by simp_all
    have "trace (final_world (run_files (entry # entries) w)) = trace w @ (new1 @ new2)"
      using Finished 2(1) w1(1) by simp
    moreover have "\<forall>ev\<in>set (new1 @ new2). \<forall>p. touches ev p \<longrightarrow> p \<in> dom (fs w)"
      using 1(2) 2(2) w1(2) by auto
    moreover have "dom (fs (final_world (run_files (entry # entries) w))) = dom (fs w)"
      using Finished 2(3) w1(2) by simp
    ultimately show ?thesis by blast
  next
    case (Aborted p w1)
    with 1 show ?thesis by auto
  qed
qed

lemma run_files_skip_notice:
  assumes "run_files entries w = Finished w'" "(filename, page_name) \<in> set entries"
    "fs w (path_join design_dir filename) = None"
  shows "Print (''Skipping '' @ filename @ '', does not exist'') \<in>
           set (drop (length (trace w)) (trace w'))"
  using assms
proof (induction entries arbitrary: w)
  case Nil
  then show ?case by simp
next
  case (Cons entry entries)
  from Cons.prems(1) obtain w1 where
    w1: "process_file entry w = Finished w1" "run_files entries w1 = Finished w'"
    by (auto split: outcome.splits)
  from process_file_touches [of entry w] w1(1) obtain new1 where
    n1: "trace w1 = trace w @ new1" "dom (fs w1) = dom (fs w)"
    by auto
  from run_files_touches [of entries w1] w1(2) obtain new2 where
    n2: "trace w' = trace w1 @ new2"
    by auto
  show ?case
  proof (cases "entry = (filename, page_name)")
    case True
    with w1(1) process_file_missing [OF Cons.prems(3), of page_name]
    have "w1 = w\<lparr>trace := trace w @ [Print (''Skipping '' @ filename @ '', does not exist'')]\<rparr>"
      by simp
    then have "trace w1 = trace w @ [Print (''Skipping '' @ filename @ '', does not exist'')]"
      by simp
    then show ?thesis using n2 by simp
  next
    case False
    with Cons.prems(2) have "(filename, page_name) \<in> set entries" by simp
    moreover from Cons.prems(3) n1(2) have "fs w1 (path_join design_dir filename) = None"
      by (metis domIff)
    ultimately have "Print (''Skipping '' @ filename @ '', does not exist'') \<in>
        set (drop (length (trace w1)) (trace w'))"
      using Cons.IH [OF w1(2)] by blast
    then show ?thesis using n1 n2 by simp
  qed
qed

lemma run_final_world:
  "final_world (run w) =
     (case run_files files w of
        Finished w' \<Rightarrow> emit [Print ''All files processed.''] w'
      | Aborted p w' \<Rightarrow> w')"
  by (simp add: run_def split: outcome.splits)

text \<open>
  C8. For a configured file whose path does not exist, the loop body prints the skip notice
  and does nothing else. In the whole run, finished or aborted, no event reads the path or
  writes to it, the path still does not exist at the end, and a run that finishes has
  printed the skip notice.
\<close>

theorem missing_file_untouched:
  assumes "(filename, page_name) \<in> set files" "fs w (path_join design_dir filename) = None"
  shows "process_file (filename, page_name) w =
           Finished (w\<lparr>trace := trace w @ [Print (''Skipping '' @ filename @ '', does not exist'')]\<rparr>) \<and>
         (\<exists>new. trace (final_world (run w)) = trace w @ new \<and>
            (\<forall>ev\<in>set new. \<not> touches ev (path_join design_dir filename)) \<and>
            ((\<exists>w'. run w = Finished w') \<longrightarrow>
               Print (''Skipping '' @ filename @ '', does not exist'') \<in> set new)) \<and>
         fs (final_world (run w)) (path_join design_dir filename) = None"
proof (intro conjI)
  show "process_file (filename, page_name) w =
      Finished (w\<lparr>trace := trace w @ [Print (''Skipping '' @ filename @ '', does not exist'')]\<rparr>)"
    by (rule process_file_missing [OF assms(2)])
  from run_files_touches [of files w] obtain new where
    n: "trace (final_world (run_files files w)) = trace w @ new"
    "\<forall>ev\<in>set new. \<forall>p. touches ev p \<longrightarrow> p \<in> dom (fs w)"
    "dom (fs (final_world (run_files files w))) = dom (fs w)"
    by blast
  from assms(2) have nd: "path_join design_dir filename \<notin> dom (fs w)" by (simp add: domIff)
  show "fs (final_world (run w)) (path_join design_dir filename) = None"
    using n(3) nd by (cases "run_files files w") (auto simp: run_final_world emit_def)
  show "\<exists>new. trace (final_world (run w)) = trace w @ new \<and>
      (\<forall>ev\<in>set new. \<not> touches ev (path_join design_dir filename)) \<and>
      ((\<exists>w'. run w = Finished w') \<longrightarrow>
         Print (''Skipping '' @ filename @ '', does not exist'') \<in> set new)"
  proof (cases "run_files files w")
    case (Finished w1)
    from run_files_skip_notice [OF Finished assms] n(1) Finished
    have s: "Print (''Skipping '' @ filename @ '', does not exist'') \<in> set new" by simp
    have "trace (final_world (run w)) = trace w @ (new @ [Print ''All files processed.''])"
      using n(1) Finished by (simp add: run_final_world emit_def)
    moreover have "\<forall>ev\<in>set (new @ [Print ''All files processed.'']).
        \<not> touches ev (path_join design_dir filename)"
      using n(2) nd by auto
    moreover have "Print (''Skipping '' @ filename @ '', does not exist'') \<in>
        set (new @ [Print ''All files processed.''])"
      using s by simp
    ultimately show ?thesis by blast
  next
    case (Aborted p w1)
    have "trace (final_world (run w)) = trace w @ new"
      using n(1) Aborted by (simp add: run_final_world)
    moreover have "\<forall>ev\<in>set new. \<not> touches ev (path_join design_dir filename)"
      using n(2) nd by auto
    moreover have "\<not> (\<exists>w'. run w = Finished w')" using Aborted by (simp add: run_def)
    ultimately show ?thesis by blast
  qed
qed

theorem missing_file_untouched_witness:
  "process_file (''reports.html'', ''Reports & Docs'')
     \<lparr>fs = [''.designs/dashboard.html'' \<mapsto> Document ''<p/>''], trace = []\<rparr> =
     Finished \<lparr>fs = [''.designs/dashboard.html'' \<mapsto> Document ''<p/>''],
               trace = [Print ''Skipping reports.html, does not exist'']\<rparr> \<and>
   run \<lparr>fs = [''.designs/dashboard.html'' \<mapsto> Document ''<p/>''], trace = []\<rparr> =
     Finished \<lparr>fs = [''.designs/dashboard.html'' \<mapsto> Document ''<p/>''],
               trace = [Read ''.designs/dashboard.html'',
                        Print ''Warning: No aside tag found in dashboard.html'',
                        Print ''Added Material Icons link to dashboard.html'',
                        Wrote ''.designs/dashboard.html'' ''<p/>'',
                        Print ''Skipping participants.html, does not exist'',
                        Print ''Skipping reports.html, does not exist'',
                        Print ''Skipping ai.html, does not exist'',
                        Print ''Skipping toolkit.html, does not exist'',
                        Print ''Skipping ndisplans.html, does not exist'',
                        Print ''Skipping general.html, does not exist'',
                        Print ''Skipping profile.html, does not exist'',
                        Print ''All files processed.'']\<rparr> \<and>
   fs (final_world (run \<lparr>fs = [''.designs/dashboard.html'' \<mapsto> Document ''<p/>''], trace = []\<rparr>))
     ''.designs/reports.html'' = None"
proof -
  let ?w = "\<lparr>fs = [''.designs/dashboard.html'' \<mapsto> Document ''<p/>''], trace = []\<rparr>"
  have p: "path_join design_dir ''reports.html'' = ''.designs/reports.html''"
    by (simp add: design_path)
  have 1: "(''reports.html'', ''Reports & Docs'') \<in> set files" by (simp add: files_def)
  have 2: "fs ?w (path_join design_dir ''reports.html'') = None" unfolding p by simp
  have r: "run ?w =
     Finished \<lparr>fs = [''.designs/dashboard.html'' \<mapsto> Document ''<p/>''],
               trace = [Read ''.designs/dashboard.html'',
                        Print ''Warning: No aside tag found in dashboard.html'',
                        Print ''Added Material Icons link to dashboard.html'',
                        Wrote ''.designs/dashboard.html'' ''<p/>'',
                        Print ''Skipping participants.html, does not exist'',
                        Print ''Skipping reports.html, does not exist'',
                        Print ''Skipping ai.html, does not exist'',
                        Print ''Skipping toolkit.html, does not exist'',
                        Print ''Skipping ndisplans.html, does not exist'',
                        Print ''Skipping general.html, does not exist'',
                        Print ''Skipping profile.html, does not exist'',
                        Print ''All files processed.'']\<rparr>"
    by (simp add: run_def files_def process_file_def design_path read_text_def
        update_sidebar_def ensure_icon_link_def add_icon_link_def aside_pattern_def emit_def
        Let_def)
  note t = missing_file_untouched [OF 1 2]
  from t [THEN conjunct1] have
    "process_file (''reports.html'', ''Reports & Docs'') ?w =
       Finished \<lparr>fs = [''.designs/dashboard.html'' \<mapsto> Document ''<p/>''],
                 trace = [Print ''Skipping reports.html, does not exist'']\<rparr>"
    by simp
  moreover from t [THEN conjunct2, THEN conjunct2] have
    "fs (final_world (run ?w)) ''.designs/reports.html'' = None"
    unfolding p .
  ultimately show ?thesis using r by (intro conjI)
qed

section \<open>Patching twice\<close>

text \<open>When the new text is the old one with an insertion before it, a property that
  survives the removal of one insertion survives the removal of all.\<close>

lemma str_replace_insert_induct:
  assumes "old \<noteq> []"
    and removal: "\<And>x y. P (x @ ins @ old @ y) \<Longrightarrow> P (x @ old @ y)"
  shows "P (x @ str_replace old (ins @ old) s) \<Longrightarrow> P (x @ s)"
proof (induction s arbitrary: x rule: length_induct)
  case (1 s)
  show ?case
  proof (cases s)
    case Nil
    with 1(2) assms(1) show ?thesis by simp
  next
    case (Cons c cs)
    show ?thesis
    proof (cases "prefix old s")
      case True
      then obtain s' where s': "s = old @ s'" by (auto simp: prefix_def)
      have "str_replace old (ins @ old) s = (ins @ old) @ str_replace old (ins @ old) s'"
        unfolding s' by (rule str_replace_hit [OF assms(1)])
      with 1(2) have "P (x @ ins @ old @ str_replace old (ins @ old) s')" by simp
      then have "P ((x @ old) @ str_replace old (ins @ old) s')"
        using removal by simp
      moreover have "length s' < length s" using s' assms(1) by simp
      ultimately have "P ((x @ old) @ s')" using 1(1) by blast
      then show ?thesis unfolding s' by simp
    next
      case False
      with Cons assms(1) have
        "str_replace old (ins @ old) s = c # str_replace old (ins @ old) cs" by simp
      with 1(2) have "P ((x @ [c]) @ str_replace old (ins @ old) cs)" by simp
      moreover have "length cs < length s" using Cons by simp
      ultimately have "P ((x @ [c]) @ cs)" using 1(1) by blast
      then show ?thesis unfolding Cons by simp
    qed
  qed
qed

lemma sublist_insertion:
  assumes "m \<noteq> []" "hd m \<notin> set (tl w)" "last m \<notin> set (butlast w)" "\<not> sublist w m"
  shows "sublist w (x @ m @ y) \<longleftrightarrow> sublist w x \<or> sublist w y"
  using sublist_delimited [OF assms(1-3), of x y] assms(4) by simp

lemma sublist_remove_insertion:
  assumes "m \<noteq> []" "hd m \<notin> set (tl w)" "last m \<notin> set (butlast w)" "\<not> sublist w m"
    and "sublist w (x @ m @ y)"
  shows "sublist w (x @ y)"
  using assms(5) unfolding sublist_insertion [OF assms(1-4)] by (auto simp: sublist_append)

text \<open>A match of the pattern is an opening word, later the character \<open>g\<close>, later the closing
  word. Such a match survives when an insertion before a word \<open>old\<close> that ends in \<open>g\<close> is
  taken out, if no opening or closing word can touch the insertion.\<close>

lemma match_remove_insertion:
  fixes g :: 'a
  assumes ins: "ins \<noteq> []" "hd ins \<noteq> g"
      "hd ins \<notin> set (tl op)" "last ins \<notin> set (butlast op)" "\<not> sublist op ins"
      "hd ins \<notin> set (tl cl)" "last ins \<notin> set (butlast cl)" "\<not> sublist cl ins"
    and old: "old \<noteq> []" "hd old \<noteq> g" "last old = g" "\<not> sublist cl old"
      "g \<notin> set (butlast cl)"
    and m: "x @ ins @ old @ y = t1 @ g # t3" "sublist op t1" "sublist cl t3"
  shows "\<exists>s1 s3. x @ old @ y = s1 @ g # s3 \<and> sublist op s1 \<and> sublist cl s3"
proof -
  note op_ins = sublist_insertion [OF ins(1,3,4,5)]
  note cl_ins = sublist_insertion [OF ins(1,6,7,8)]
  from m(1) consider
    (before) us where "x = t1 @ us" "us @ ins @ old @ y = g # t3"
    | (behind) us where "t1 = x @ us" "ins @ old @ y = us @ g # t3"
    by (auto simp: append_eq_append_conv2)
  then show ?thesis
  proof cases
    case before
    show ?thesis
    proof (cases us)
      case Nil
      with before(2) ins(1,2) show ?thesis by (cases ins) auto
    next
      case (Cons u us')
      with before have x: "x = t1 @ g # us'" and t3: "t3 = us' @ ins @ old @ y" by simp_all
      from m(3) have "sublist cl us' \<or> sublist cl (old @ y)" unfolding t3 cl_ins .
      then have "sublist cl (us' @ old @ y)" by (auto simp: sublist_append)
      moreover have "x @ old @ y = t1 @ g # (us' @ old @ y)" unfolding x by simp
      ultimately show ?thesis using m(2) by blast
    qed
  next
    case behind
    from behind(2) consider
      (inside) vs where "ins = us @ vs" "vs @ old @ y = g # t3"
      | (after) vs where "us = ins @ vs" "old @ y = vs @ g # t3"
      by (auto simp: append_eq_append_conv2)
    then show ?thesis
    proof cases
      case inside
      show ?thesis
      proof (cases vs)
        case Nil
        with inside(2) old(1,2) show ?thesis by (cases old) auto
      next
        case (Cons v vs')
        with inside have i: "ins = us @ g # vs'" and t3: "t3 = vs' @ old @ y" by simp_all
        have "prefix t1 (x @ ins)" unfolding behind(1) i by simp
        then have "sublist t1 (x @ ins @ [])" by simp
        with m(2) have "sublist op (x @ ins @ [])" using sublist_order.order_trans by blast
        then have o: "sublist op x" unfolding op_ins by auto
        have "suffix t3 (ins @ old @ y)"
          unfolding t3 i by (simp add: suffix_def)
        then have "sublist t3 ([] @ ins @ old @ y)" by simp
        with m(3) have "sublist cl ([] @ ins @ old @ y)"
          using sublist_order.order_trans by blast
        then have "sublist cl (old @ y)" unfolding cl_ins by auto
        moreover have e: "old @ y = butlast old @ g # y"
          using old(1,3) by (metis append_butlast_last_id append_Cons append_Nil append_assoc)
        ultimately have "sublist cl (butlast old @ [g]) \<or> sublist cl y"
          using sublist_end_delim [OF old(5), of "butlast old" y] by simp
        moreover have "butlast old @ [g] = old"
          using old(1,3) by (metis append_butlast_last_id)
        ultimately have c: "sublist cl y" using old(4) by simp
        have "x @ old @ y = (x @ butlast old) @ g # y" using e by simp
        moreover have "sublist op (x @ butlast old)" using o by (simp add: sublist_append)
        ultimately show ?thesis using c by blast
      qed
    next
      case after
      from m(2) have "sublist op x \<or> sublist op vs"
        unfolding behind(1) after(1) using op_ins [of x vs] by simp
      then have "sublist op (x @ vs)" by (auto simp: sublist_append)
      moreover have "x @ old @ y = (x @ vs) @ g # t3" using after(2) by simp
      ultimately show ?thesis using m(3) by blast
    qed
  qed
qed

lemma has_container_split:
  "has_container s \<longleftrightarrow>
     (\<exists>t1 t3. s = t1 @ CHR ''>'' # t3 \<and> sublist ''<aside'' t1 \<and> sublist ''</aside>'' t3)"
proof
  assume "has_container s"
  then obtain before attrs inner rest where
    "s = before @ ''<aside'' @ attrs @ ''>'' @ inner @ ''</aside>'' @ rest"
    unfolding has_container_def by blast
  then have "s = (before @ ''<aside'' @ attrs) @ CHR ''>'' # (inner @ ''</aside>'' @ rest)"
    by simp
  moreover have "sublist ''<aside'' (before @ ''<aside'' @ attrs)"
    by (simp only: sublist_appendI)
  moreover have "sublist ''</aside>'' (inner @ ''</aside>'' @ rest)"
    by (simp only: sublist_appendI)
  ultimately show "\<exists>t1 t3. s = t1 @ CHR ''>'' # t3 \<and> sublist ''<aside'' t1 \<and>
      sublist ''</aside>'' t3"
    by blast
next
  assume "\<exists>t1 t3. s = t1 @ CHR ''>'' # t3 \<and> sublist ''<aside'' t1 \<and> sublist ''</aside>'' t3"
  then obtain t1 t3 where s: "s = t1 @ CHR ''>'' # t3"
    and "sublist ''<aside'' t1" "sublist ''</aside>'' t3"
    by blast
  then obtain b a u r where "t1 = b @ ''<aside'' @ a" "t3 = u @ ''</aside>'' @ r"
    unfolding sublist_def by blast
  with s have "s = b @ ''<aside'' @ a @ ''>'' @ u @ ''</aside>'' @ r" by simp
  then show "has_container s" unfolding has_container_def by blast
qed

lemma aside_search_container: "re_search aside_pattern s = None \<longleftrightarrow> \<not> has_container s"
  unfolding has_container_def by (rule aside_search_None)

lemma icon_link_insertion:
  "add_icon_link s = str_replace ''</head>'' ((icon_link @ ''\<newline>'') @ ''</head>'') s"
  "icon_link @ ''\<newline>'' \<noteq> []"
  "hd (icon_link @ ''\<newline>'') = CHR ''<''"
  "last (icon_link @ ''\<newline>'') = CHR ''\<newline>''"
  "\<not> sublist ''<aside'' (icon_link @ ''\<newline>'')"
  "\<not> sublist ''</aside>'' (icon_link @ ''\<newline>'')"
  by (simp_all add: add_icon_link_def icon_link_def sublist_code)

lemma add_icon_link_no_opening:
  assumes "\<not> sublist ''<aside'' s"
  shows "\<not> sublist ''<aside'' (add_icon_link s)"
proof
  assume "sublist ''<aside'' (add_icon_link s)"
  then have "sublist ''<aside''
      ([] @ str_replace ''</head>'' ((icon_link @ ''\<newline>'') @ ''</head>'') s)"
    unfolding icon_link_insertion(1) by simp
  then have "sublist ''<aside'' ([] @ s)"
  proof (rule str_replace_insert_induct [rotated 2])
    show "''</head>'' \<noteq> []" by simp
    show "sublist ''<aside'' (x @ ''</head>'' @ y)"
      if "sublist ''<aside'' (x @ (icon_link @ ''\<newline>'') @ ''</head>'' @ y)" for x y
      using that
      by (rule sublist_remove_insertion [rotated 4]) (simp_all add: icon_link_insertion)
  qed
  with assms show False by simp
qed

lemma add_icon_link_no_container:
  assumes "\<not> has_container s"
  shows "\<not> has_container (add_icon_link s)"
proof
  assume "has_container (add_icon_link s)"
  then have "has_container
      ([] @ str_replace ''</head>'' ((icon_link @ ''\<newline>'') @ ''</head>'') s)"
    unfolding icon_link_insertion(1) by simp
  then have "has_container ([] @ s)"
  proof (rule str_replace_insert_induct [rotated 2])
    show "''</head>'' \<noteq> []" by simp
    show "has_container (x @ ''</head>'' @ y)"
      if "has_container (x @ (icon_link @ ''\<newline>'') @ ''</head>'' @ y)" for x y
    proof -
      from that obtain t1 t3 where
        m: "x @ (icon_link @ ''\<newline>'') @ ''</head>'' @ y = t1 @ CHR ''>'' # t3"
        "sublist ''<aside'' t1" "sublist ''</aside>'' t3"
        unfolding has_container_split by blast
      have "\<exists>s1 s3. x @ ''</head>'' @ y = s1 @ CHR ''>'' # s3 \<and> sublist ''<aside'' s1 \<and>
          sublist ''</aside>'' s3"
        by (rule match_remove_insertion [OF _ _ _ _ _ _ _ _ _ _ _ _ _ m])
          (simp_all add: icon_link_insertion sublist_code)
      then show ?thesis unfolding has_container_split .
    qed
  qed
  with assms show False by simp
qed

lemma ensure_icon_link_detects:
  assumes "sublist ''family=Material+Icons+Round'' content"
  shows "ensure_icon_link filename content = (content, [])"
  using assms by (simp add: ensure_icon_link_def str_in_sublist)

lemma ensure_icon_link_fixed:
  "fst (ensure_icon_link filename (fst (ensure_icon_link filename content))) =
   fst (ensure_icon_link filename content)"
proof (cases "sublist ''family=Material+Icons+Round'' content")
  case True
  then show ?thesis by (simp add: ensure_icon_link_text)
next
  case False
  show ?thesis
  proof (cases "sublist ''</head>'' content")
    case True
    from add_icon_link_present [OF True] False show ?thesis
      by (simp add: ensure_icon_link_text)
  next
    case False
    then show ?thesis by (simp add: ensure_icon_link_text add_icon_link_absent)
  qed
qed

lemma patched_shape:
  "(\<not> has_container content \<and> \<not> has_container (patch_text filename page_name content)) \<or>
   (has_container content \<and>
    (\<exists>before rest. patch_text filename page_name content = before @ get_sidebar page_name @ rest \<and>
       \<not> sublist ''<aside'' (before @ ''<asid'')))"
  using update_sidebar_cases [of content filename page_name]
proof (elim disjE conjE exE)
  assume n: "\<not> (\<exists>before attrs inner rest.
      content = before @ ''<aside'' @ attrs @ ''>'' @ inner @ ''</aside>'' @ rest)"
    and u: "update_sidebar filename page_name content =
      (content, ''Warning: No aside tag found in '' @ filename)"
  from n have nc: "\<not> has_container content" unfolding has_container_def .
  then have "\<not> has_container (add_icon_link content)" by (rule add_icon_link_no_container)
  with nc have "\<not> has_container (patch_text filename page_name content)"
    unfolding patch_text_def u fst_conv ensure_icon_link_text by simp
  with nc show ?thesis by simp
next
  fix before attrs inner rest
  assume c: "content = before @ ''<aside'' @ attrs @ ''>'' @ inner @ ''</aside>'' @ rest"
    and f: "\<not> sublist ''<aside'' (before @ ''<asid'')"
    and u: "update_sidebar filename page_name content =
      (before @ get_sidebar page_name @ rest, ''Updated sidebar in '' @ filename)"
  from c have hc: "has_container content" unfolding has_container_def by blast
  from f have "\<not> sublist ''<aside'' before" by (auto simp: sublist_append)
  then have "\<not> sublist ''<aside'' (add_icon_link before)" by (rule add_icon_link_no_opening)
  then have g: "\<not> sublist ''<aside'' (add_icon_link before @ ''<asid'')"
    by (rule no_opening_before)
  have "patch_text filename page_name content = before @ get_sidebar page_name @ rest \<or>
      patch_text filename page_name content =
        add_icon_link before @ get_sidebar page_name @ add_icon_link rest"
    unfolding patch_text_def u fst_conv ensure_around_sidebar by simp
  with f g have "\<exists>before rest.
      patch_text filename page_name content = before @ get_sidebar page_name @ rest \<and>
      \<not> sublist ''<aside'' (before @ ''<asid'')"
    by blast
  with hc show ?thesis by simp
qed

lemma search_finds_sidebar:
  assumes "\<not> sublist ''<aside'' (before @ ''<asid'')"
  shows "re_search aside_pattern (before @ get_sidebar page_name @ rest) = Some (before, rest)"
    and "update_sidebar filename page_name' (before @ get_sidebar page_name @ rest) =
      (before @ get_sidebar page_name' @ rest, ''Updated sidebar in '' @ filename)"
proof -
  from get_sidebar_shape [of page_name] obtain attrs inner where
    s: "get_sidebar page_name = ''<aside'' @ attrs @ ''>'' @ inner @ ''</aside>''"
    and f: "CHR ''>'' \<notin> set attrs" "\<not> sublist ''</aside>'' (inner @ ''</aside'')"
    by blast
  have e: "before @ get_sidebar page_name @ rest =
      before @ ''<aside'' @ attrs @ ''>'' @ inner @ ''</aside>'' @ rest"
    unfolding s by simp
  show "re_search aside_pattern (before @ get_sidebar page_name @ rest) = Some (before, rest)"
    unfolding e by (rule aside_search_first [OF assms f])
  show "update_sidebar filename page_name' (before @ get_sidebar page_name @ rest) =
      (before @ get_sidebar page_name' @ rest, ''Updated sidebar in '' @ filename)"
    unfolding e by (rule update_sidebar_first [OF assms f])
qed

text \<open>
  C5. The text the patcher leaves is a fixed point of both of its steps, so patching it
  again gives the same text, for every document. The fragment has no closing tag before
  its own (lemma \<open>get_sidebar_shape\<close>): when the document had a container, the first step
  of the second run finds the fragment as its first match and puts the same fragment in
  its place. When the text had a head marker after the first step, or named the icon
  family, the second step of the second run finds the family named, adds nothing and
  prints nothing; otherwise it has no head marker to put the link before.
\<close>

theorem patch_idempotent:
  "patch_text filename page_name (patch_text filename page_name content) =
     patch_text filename page_name content \<and>
   fst (update_sidebar filename page_name (patch_text filename page_name content)) =
     patch_text filename page_name content \<and>
   fst (ensure_icon_link filename (patch_text filename page_name content)) =
     patch_text filename page_name content \<and>
   (has_container content \<longrightarrow>
      (\<exists>before rest.
         patch_text filename page_name content = before @ get_sidebar page_name @ rest \<and>
         re_search aside_pattern (patch_text filename page_name content) = Some (before, rest))) \<and>
   (sublist ''</head>'' (fst (update_sidebar filename page_name content)) \<or>
    sublist ''family=Material+Icons+Round'' (fst (update_sidebar filename page_name content)) \<longrightarrow>
      ensure_icon_link filename (patch_text filename page_name content) =
        (patch_text filename page_name content, []))"
proof -
  let ?p = "patch_text filename page_name content"
  let ?c1 = "fst (update_sidebar filename page_name content)"
  have step2: "fst (ensure_icon_link filename ?p) = ?p"
    unfolding patch_text_def by (rule ensure_icon_link_fixed)
  have found: "\<exists>before rest. ?p = before @ get_sidebar page_name @ rest \<and>
      re_search aside_pattern ?p = Some (before, rest)" if "has_container content"
  proof -
    from patched_shape [of content filename page_name] that obtain before rest where
      p: "?p = before @ get_sidebar page_name @ rest"
      and f: "\<not> sublist ''<aside'' (before @ ''<asid'')"
      by blast
    from search_finds_sidebar(1) [OF f, of page_name rest] p show ?thesis by simp
  qed
  have step1: "fst (update_sidebar filename page_name ?p) = ?p"
  proof (cases "has_container content")
    case True
    from patched_shape [of content filename page_name] True obtain before rest where
      p: "?p = before @ get_sidebar page_name @ rest"
      and f: "\<not> sublist ''<aside'' (before @ ''<asid'')"
      by blast
    show ?thesis
      unfolding p search_finds_sidebar(2) [OF f] by simp
  next
    case False
    with patched_shape [of content filename page_name] have "\<not> has_container ?p" by blast
    then show ?thesis
      unfolding has_container_def by (simp add: update_sidebar_no_match)
  qed
  have detect: "ensure_icon_link filename ?p = (?p, [])"
    if "sublist ''</head>'' ?c1 \<or> sublist ''family=Material+Icons+Round'' ?c1"
  proof (rule ensure_icon_link_detects)
    show "sublist ''family=Material+Icons+Round'' ?p"
    proof (cases "sublist ''family=Material+Icons+Round'' ?c1")
      case True
      then show ?thesis by (simp add: patch_text_def ensure_icon_link_text)
    next
      case False
      with that have "sublist ''</head>'' ?c1" by simp
      from add_icon_link_present [OF this] False show ?thesis
        by (simp add: patch_text_def ensure_icon_link_text)
    qed
  qed
  have "patch_text filename page_name ?p = ?p"
    using step1 step2 by (simp add: patch_text_def [of filename page_name ?p])
  with step1 step2 found detect show ?thesis by blast
qed

theorem patch_idempotent_witness:
  "patch_text ''ndisplans.html'' ''NDIS Plans''
     (patch_text ''ndisplans.html'' ''NDIS Plans'' ''<head></head><aside>old</aside>'') =
     patch_text ''ndisplans.html'' ''NDIS Plans'' ''<head></head><aside>old</aside>'' \<and>
   patch_text ''ndisplans.html'' ''NDIS Plans'' ''<head></head><aside>old</aside>'' =
     ''<head>'' @ icon_link @ ''\<newline></head>'' @ get_sidebar ''NDIS Plans'' \<and>
   (\<exists>before rest.
      patch_text ''ndisplans.html'' ''NDIS Plans'' ''<head></head><aside>old</aside>'' =
        before @ get_sidebar ''NDIS Plans'' @ rest \<and>
      re_search aside_pattern
        (patch_text ''ndisplans.html'' ''NDIS Plans'' ''<head></head><aside>old</aside>'') =
        Some (before, rest)) \<and>
   ensure_icon_link ''ndisplans.html''
     (patch_text ''ndisplans.html'' ''NDIS Plans'' ''<head></head><aside>old</aside>'') =
     (patch_text ''ndisplans.html'' ''NDIS Plans'' ''<head></head><aside>old</aside>'', [])"
proof -
  let ?c = "''<head></head><aside>old</aside>''"
  have e: "?c = ''<head></head>'' @ ''<aside'' @ [] @ ''>'' @ ''old'' @ ''</aside>'' @ []"
    by simp
  have 1: "\<not> sublist ''<aside'' (''<head></head>'' @ ''<asid'')" by (simp add: sublist_code)
  have 2: "CHR ''>'' \<notin> set []" by simp
  have 3: "\<not> sublist ''</aside>'' (''old'' @ ''</aside'')" by (simp add: sublist_code)
  have hc: "has_container ?c"
    unfolding has_container_def
    by (rule exI [of _ "''<head></head>''"], rule exI [of _ "[]"], rule exI [of _ "''old''"],
      rule exI [of _ "[]"], rule e)
  have u: "fst (update_sidebar ''ndisplans.html'' ''NDIS Plans'' ?c) =
      ''<head></head>'' @ get_sidebar ''NDIS Plans''"
    using update_sidebar_first [OF 1 2 3, of "''ndisplans.html''" "''NDIS Plans''" "[]"]
    by simp
  have h: "sublist ''</head>'' (fst (update_sidebar ''ndisplans.html'' ''NDIS Plans'' ?c))"
    unfolding u by (simp add: sublist_append sublist_code)
  have p: "patch_text ''ndisplans.html'' ''NDIS Plans'' ?c =
      ''<head>'' @ icon_link @ ''\<newline></head>'' @ get_sidebar ''NDIS Plans''"
    using patch_text_first [OF 1 2 3, of "''ndisplans.html''" "''NDIS Plans''" "[]"]
    by (simp add: sublist_code add_icon_link_def)
  note t = patch_idempotent [of "''ndisplans.html''" "''NDIS Plans''" ?c]
  from t have a: "patch_text ''ndisplans.html'' ''NDIS Plans''
      (patch_text ''ndisplans.html'' ''NDIS Plans'' ?c) =
      patch_text ''ndisplans.html'' ''NDIS Plans'' ?c"
    by (rule conjunct1)
  from t hc have b: "\<exists>before rest.
      patch_text ''ndisplans.html'' ''NDIS Plans'' ?c = before @ get_sidebar ''NDIS Plans'' @ rest \<and>
      re_search aside_pattern (patch_text ''ndisplans.html'' ''NDIS Plans'' ?c) =
        Some (before, rest)"
    by blast
  from t h have c: "ensure_icon_link ''ndisplans.html''
      (patch_text ''ndisplans.html'' ''NDIS Plans'' ?c) =
      (patch_text ''ndisplans.html'' ''NDIS Plans'' ?c, [])"
    by blast
  from a p b c show ?thesis by (intro conjI)
qed

end
